theory Spec2Isabelle
  imports Main
begin

section \<open>The agent's retrieve handler (pkg/server/server_retrieve.go)\<close>

text \<open>
  A Go \<open>error\<close> is modelled by its message; \<open>err option\<close> is a possibly nil error and
  \<open>err + 'a\<close> the result pair \<open>(value, err)\<close> of a fallible call. Peer identities and
  content identifiers are strings, as \<open>peer.ID\<close> is in go-libp2p.
\<close>

type_synonym err = string
type_synonym peer_id = string
type_synonym cid = string

record AddrInfo =
  ID :: peer_id
  Addrs :: "string list"

record RetrieveRequest =
  Routing :: string

record RetrievalResponse =
  CID :: string
  Duration :: int
  RoutingTableSize :: int
  Error :: string

text \<open>
  Modelled from the spec: the routing tags \<open>config.RoutingIPNI\<close> and \<open>config.RoutingDHT\<close>
  (package \<open>config\<close> is not among the sources). The spec names the two strategies DHT and
  Indexer; the handler only compares the tags and uses them as metric labels, so no
  property below depends on their spelling.
\<close>

definition RoutingIPNI :: string where
  "RoutingIPNI = ''IPNI''"

definition RoutingDHT :: string where
  "RoutingDHT = ''DHT''"

text \<open>The status codes of \<open>net/http\<close> and the error of \<open>peer.ID.Validate\<close>.\<close>

definition StatusOK :: nat where
  "StatusOK = 200"

definition StatusBadRequest :: nat where
  "StatusBadRequest = 400"

definition StatusInternalServerError :: nat where
  "StatusInternalServerError = 500"

definition ErrEmptyPeerID :: err where
  "ErrEmptyPeerID = ''empty peer ID''"

text \<open>What is handed to \<open>rw.Write\<close>: the JSON encoding of a response, or an error text.\<close>

datatype payload = Json RetrievalResponse | Text string

text \<open>
  What the first receive on the channel of \<open>FindProvidersAsync(ctx, c, 1)\<close> meets: a
  provider record, or a channel closed without one, either because the query ended with
  no provider or because the context was done (its \<open>ctx.Err()\<close> is kept).
\<close>

datatype dht_outcome =
    FirstProvider AddrInfo
  | NoProviders
  | CtxDone err

text \<open>
  Calls on the host, on the latency histogram and on the response writer, in the order
  they are made.
\<close>

datatype call =
    CallIndexerLookup cid
  | CallFindProvidersAsync cid nat
  | CallClosePeer peer_id
  | CallRemovePeer peer_id
  | CallClearAddrs peer_id
  | CallObserve string string string string int
  | CallWriteHeader nat
  | CallWrite payload

text \<open>The request as the handler sees it.\<close>

record request =
  body_read :: "err + string"
  cid_param :: string
  scheduler_id :: string

text \<open>
  The collaborators of one request: the decoders, the two routing capabilities, the time
  the routing call blocks (the monotonic clock advances by it) and the outcome of writing
  to the connection.
\<close>

record agent_env =
  json_Unmarshal :: "string \<Rightarrow> err + RetrieveRequest"
  cid_Decode :: "string \<Rightarrow> err + cid"
  IndexerLookup :: "cid \<Rightarrow> err + string list"
  FindProvidersAsync :: "cid \<Rightarrow> dht_outcome"
  lookup_time :: nat
  write_err :: "payload \<Rightarrow> err option"

text \<open>
  The state the handler acts on: the host's open connections, peerstore entries and
  address book, the routing table size, the monotonic clock, the response writer (the
  status line once sent, the payloads written) and the log of calls.
\<close>

record agent_state =
  conns :: "peer_id set"
  peerstore :: "peer_id set"
  addrbook :: "peer_id \<Rightarrow> string list"
  rt_size :: int
  clock :: int
  status :: "nat option"
  written :: "payload list"
  calls :: "call list"

subsection \<open>Library operations\<close>

text \<open>
  \<open>http.ResponseWriter\<close>: the status line is sent once; \<open>WriteHeader\<close> after that is
  ignored, and a \<open>Write\<close> before any \<open>WriteHeader\<close> sends \<open>200\<close> first.
\<close>

definition send_status :: "nat \<Rightarrow> agent_state \<Rightarrow> agent_state" where
  "send_status code s = (if status s = None then s\<lparr>status := Some code\<rparr> else s)"

definition rw_WriteHeader :: "nat \<Rightarrow> agent_state \<Rightarrow> agent_state" where
  "rw_WriteHeader code s = send_status code (s\<lparr>calls := calls s @ [CallWriteHeader code]\<rparr>)"

definition rw_Write :: "agent_env \<Rightarrow> payload \<Rightarrow> agent_state \<Rightarrow> agent_state \<times> err option" where
  "rw_Write e data s =
     (let s1 = send_status StatusOK (s\<lparr>calls := calls s @ [CallWrite data]\<rparr>) in
      case write_err e data of
        Some er \<Rightarrow> (s1, Some er)
      | None \<Rightarrow> (s1\<lparr>written := written s1 @ [data]\<rparr>, None))"

text \<open>\<open>time.Now()\<close> and \<open>time.Since(start)\<close> on the monotonic clock.\<close>

definition time_Now :: "agent_state \<Rightarrow> int" where
  "time_Now s = clock s"

definition time_Since :: "int \<Rightarrow> agent_state \<Rightarrow> int" where
  "time_Since start s = clock s - start"

text \<open>A receive from the provider channel: a closed channel yields the zero value.\<close>

definition chan_recv :: "dht_outcome \<Rightarrow> AddrInfo" where
  "chan_recv out =
     (case out of
        FirstProvider ai \<Rightarrow> ai
      | NoProviders \<Rightarrow> \<lparr>ID = [], Addrs = []\<rparr>
      | CtxDone er \<Rightarrow> \<lparr>ID = [], Addrs = []\<rparr>)"

text \<open>\<open>peer.ID.Validate\<close> of go-libp2p: the only invalid identity is the empty one.\<close>

definition Validate :: "peer_id \<Rightarrow> err option" where
  "Validate p = (if p = [] then Some ErrEmptyPeerID else None)"

definition errors_Is :: "err option \<Rightarrow> err \<Rightarrow> bool" where
  "errors_Is er target = (er = Some target)"

definition FormatBool :: "bool \<Rightarrow> string" where
  "FormatBool b = (if b then ''true'' else ''false'')"

text \<open>The three clean-up calls on the host, with their effect on its state.\<close>

definition ClosePeer :: "peer_id \<Rightarrow> agent_state \<Rightarrow> agent_state" where
  "ClosePeer p s = s\<lparr>conns := conns s - {p}, calls := calls s @ [CallClosePeer p]\<rparr>"

definition RemovePeer :: "peer_id \<Rightarrow> agent_state \<Rightarrow> agent_state" where
  "RemovePeer p s = s\<lparr>peerstore := peerstore s - {p}, calls := calls s @ [CallRemovePeer p]\<rparr>"

definition ClearAddrs :: "peer_id \<Rightarrow> agent_state \<Rightarrow> agent_state" where
  "ClearAddrs p s = s\<lparr>addrbook := (addrbook s)(p := []), calls := calls s @ [CallClearAddrs p]\<rparr>"

definition Observe :: "string \<Rightarrow> string \<Rightarrow> string \<Rightarrow> string \<Rightarrow> int \<Rightarrow> agent_state \<Rightarrow> agent_state" where
  "Observe l1 l2 l3 l4 d s = s\<lparr>calls := calls s @ [CallObserve l1 l2 l3 l4 d]\<rparr>"

text \<open>
  \<open>json.Marshal\<close> of a \<open>RetrievalResponse\<close>, a struct of two strings and two integers,
  has no failing case.
\<close>

definition json_Marshal :: "RetrievalResponse \<Rightarrow> err + payload" where
  "json_Marshal resp = Inr (Json resp)"




subsection \<open>The handler\<close>

text \<open>The \<open>config.RoutingIPNI\<close> case of the switch (lines 58 to 72).\<close>

definition retrieve_ipni ::
  "agent_env \<Rightarrow> request \<Rightarrow> cid \<Rightarrow> RetrievalResponse \<Rightarrow> agent_state
     \<Rightarrow> RetrievalResponse \<times> agent_state" where
  "retrieve_ipni e r c resp s =
     (let start = time_Now s;
          s1 = s\<lparr>clock := clock s + int (lookup_time e), calls := calls s @ [CallIndexerLookup c]\<rparr>;
          resp1 = resp\<lparr>Duration := time_Since start s1\<rparr>;
          resp2 = (case IndexerLookup e c of
                     Inl er \<Rightarrow> resp1\<lparr>Error := er\<rparr>
                   | Inr results \<Rightarrow>
                       if length results = 0 then resp1\<lparr>Error := ''not found''\<rparr> else resp1)
      in (resp2,
          Observe ''retrieval_ttfpr'' RoutingIPNI (FormatBool (Error resp2 = [])) (scheduler_id r)
            (Duration resp2) s1))"

text \<open>The default case of the switch (lines 73 to 89).\<close>

definition retrieve_dht ::
  "agent_env \<Rightarrow> request \<Rightarrow> cid \<Rightarrow> RetrievalResponse \<Rightarrow> agent_state
     \<Rightarrow> RetrievalResponse \<times> agent_state" where
  "retrieve_dht e r c resp s =
     (let start = time_Now s;
          s1 = s\<lparr>clock := clock s + int (lookup_time e),
                 calls := calls s @ [CallFindProvidersAsync c 1]\<rparr>;
          provider = chan_recv (FindProvidersAsync e c);
          resp1 = resp\<lparr>Duration := time_Since start s1\<rparr>;
          (resp2, s2) =
            (if errors_Is (Validate (ID provider)) ErrEmptyPeerID
             then (resp1\<lparr>Error := ''not found''\<rparr>, s1)
             else (resp1, ClearAddrs (ID provider) (RemovePeer (ID provider)
                            (ClosePeer (ID provider) s1))))
      in (resp2,
          Observe ''retrieval_ttfpr'' RoutingDHT (FormatBool (Error resp2 = [])) (scheduler_id r)
            (Duration resp2) s2))"

text \<open>Encoding and writing the response (lines 92 to 103).\<close>

definition respond :: "agent_env \<Rightarrow> RetrievalResponse \<Rightarrow> agent_state \<Rightarrow> agent_state" where
  "respond e resp s =
     (case json_Marshal resp of
        Inl er \<Rightarrow> rw_WriteHeader StatusInternalServerError (fst (rw_Write e (Text er) s))
      | Inr data \<Rightarrow>
          (case rw_Write e data s of
             (s1, Some er) \<Rightarrow>
               rw_WriteHeader StatusInternalServerError (fst (rw_Write e (Text er) s1))
           | (s1, None) \<Rightarrow> s1))"

text \<open>\<open>Server.retrieve\<close> (lines 28 to 104).\<close>

definition retrieve :: "agent_env \<Rightarrow> request \<Rightarrow> agent_state \<Rightarrow> agent_state" where
  "retrieve e r s =
     (case body_read r of
        Inl er \<Rightarrow> rw_WriteHeader StatusInternalServerError s
      | Inr data \<Rightarrow>
     (case json_Unmarshal e data of
        Inl er \<Rightarrow> rw_WriteHeader StatusBadRequest s
      | Inr rr \<Rightarrow>
     (case cid_Decode e (cid_param r) of
        Inl er \<Rightarrow> rw_WriteHeader StatusBadRequest s
      | Inr c \<Rightarrow>
          (let resp = \<lparr>CID = c, Duration = 0, RoutingTableSize = rt_size s, Error = []\<rparr>;
               (resp1, s1) = (if Routing rr = RoutingIPNI
                              then retrieve_ipni e r c resp s
                              else retrieve_dht e r c resp s)
           in respond e resp1 s1))))"

text \<open>
  A request that reaches the switch: the body was read, decoded to \<open>rr\<close>, and the
  \<open>cid\<close> parameter decoded to \<open>c\<close>.
\<close>

definition decodes_to :: "agent_env \<Rightarrow> request \<Rightarrow> RetrieveRequest \<Rightarrow> cid \<Rightarrow> bool" where
  "decodes_to e r rr c =
     (case body_read r of
        Inl er \<Rightarrow> False
      | Inr data \<Rightarrow> json_Unmarshal e data = Inr rr \<and> cid_Decode e (cid_param r) = Inr c)"

section \<open>The coordinator's schedule loop (ScheduleAction)\<close>

text \<open>
  Nodes are known by their index in \<open>nodes\<close>; rounds are numbered from 0 by a counter that
  the source does not keep and that only serves to tell which answer the collaborators
  give in which round. An event is a call on a collaborator that has returned.
\<close>

datatype event =
    EvInitDBClient
  | EvInitRun
  | EvWaitForAPI nat
  | EvInsertNode nat
  | EvNewRandomContent nat
  | EvProvide nat nat
  | EvInsertProvide nat nat
  | EvRetrieve nat nat
  | EvInsertRetrieval nat nat

text \<open>How a function, a goroutine or the process ends: it returns an error value or panics.\<close>

datatype outcome = Returned "err option" | Panicked string

text \<open>
  Modelled from the spec: \<open>models.Node\<close>, the registered node with its id (package
  \<open>models\<close> is not among the sources). \<open>dbNodes\<close> holds pointers to such nodes, nil
  (\<open>None\<close>) until a readiness goroutine stores one.
\<close>

record models_Node =
  NodeID :: int

text \<open>
  The collaborators of one execution: the flag, the persistence gateway, the agents
  (by node index, and by round where the call is made in a round) and the context.
  \<open>Context_Err e r\<close> is \<open>c.Context.Err()\<close> when round \<open>r\<close> begins, \<open>None\<close> while the
  context is not done.
\<close>

record sched_env =
  dry_run :: bool
  InitDBClient :: "err option"
  ReadBuildInfo :: bool
  InitRun :: "err option"
  WaitForAPI :: "nat \<Rightarrow> err option"
  InsertNode :: "nat \<Rightarrow> err + models_Node"
  Context_Err :: "nat \<Rightarrow> err option"
  NewRandomContent :: "nat \<Rightarrow> err + cid"
  Provide :: "nat \<Rightarrow> nat \<Rightarrow> cid \<Rightarrow> err option"
  InsertProvide :: "nat \<Rightarrow> nat \<Rightarrow> err option"
  Retrieve :: "nat \<Rightarrow> nat \<Rightarrow> cid \<Rightarrow> err option"
  InsertRetrieval :: "nat \<Rightarrow> nat \<Rightarrow> err option"

text \<open>What is known of an execution after a number of rounds.\<close>

record run =
  trace :: "event list"
  result :: "outcome option"
  completed :: nat
  provNode :: nat

definition nil_deref :: string where
  "nil_deref = ''invalid memory address or nil pointer dereference''"

definition index_out_of_range :: string where
  "index_out_of_range = ''index out of range''"

text \<open>
  \<open>errgroup.Group.Wait\<close> over the goroutines' outcomes, laid out in the order they were
  started: a panic in any goroutine ends the process; otherwise the first error is
  returned; otherwise nil.
\<close>

fun first_err :: "outcome list \<Rightarrow> err option" where
  "first_err [] = None"
| "first_err (Returned (Some er) # os) = Some er"
| "first_err (_ # os) = first_err os"

fun first_panic :: "outcome list \<Rightarrow> string option" where
  "first_panic [] = None"
| "first_panic (Panicked m # os) = Some m"
| "first_panic (_ # os) = first_panic os"

definition errg_Wait :: "outcome list \<Rightarrow> outcome" where
  "errg_Wait os = (case first_panic os of Some m \<Rightarrow> Panicked m | None \<Rightarrow> Returned (first_err os))"

text \<open>\<open>fmt.Errorf("...: %w", err)\<close>.\<close>

definition wrap :: "string \<Rightarrow> err \<Rightarrow> err" where
  "wrap msg er = msg @ '': '' @ er"

subsection \<open>The readiness barrier (lines 276 to 310)\<close>

text \<open>
  The goroutine started for node \<open>i\<close>: its events, its outcome and the value it stores
  in \<open>dbNodes[i]\<close>, if any.
\<close>

definition readiness_task ::
  "sched_env \<Rightarrow> bool \<Rightarrow> nat \<Rightarrow> event list \<times> outcome \<times> models_Node option" where
  "readiness_task e dbc i =
     (case WaitForAPI e i of
        Some er \<Rightarrow> ([EvWaitForAPI i], Returned (Some er), None)
      | None \<Rightarrow>
          if \<not> dbc then ([EvWaitForAPI i], Returned None, None)
          else (case InsertNode e i of
                  Inl er \<Rightarrow> ([EvWaitForAPI i, EvInsertNode i],
                             Returned (Some (wrap ''insert db node'' er)), None)
                | Inr dbNode \<Rightarrow> ([EvWaitForAPI i, EvInsertNode i], Returned None, Some dbNode)))"

text \<open>
  The barrier: one goroutine for each node, then \<open>errg.Wait()\<close>. It yields the events,
  the outcome of the wait and \<open>dbNodes\<close>, which starts as nil entries and holds what the
  goroutines stored.
\<close>

definition readiness_barrier ::
  "sched_env \<Rightarrow> bool \<Rightarrow> nat \<Rightarrow> event list \<times> outcome \<times> models_Node option list" where
  "readiness_barrier e dbc n =
     (let tasks = map (readiness_task e dbc) [0..<n]
      in (concat (map fst tasks),
          errg_Wait (map (\<lambda>t. fst (snd t)) tasks),
          map (\<lambda>t. snd (snd t)) tasks))"

subsection \<open>One round\<close>

text \<open>The goroutine started for \<open>retrNode\<close> (lines 344 to 362).\<close>

definition retrieval_task ::
  "sched_env \<Rightarrow> bool \<Rightarrow> models_Node option list \<Rightarrow> nat \<Rightarrow> cid \<Rightarrow> nat \<Rightarrow> event list \<times> outcome" where
  "retrieval_task e dbc dbNodes r content retrNode =
     (let dbNode = dbNodes ! retrNode in
      case Retrieve e r retrNode content of
        Some er \<Rightarrow> ([EvRetrieve r retrNode], Returned (Some (wrap ''api retrieve'' er)))
      | None \<Rightarrow>
          if \<not> dbc then ([EvRetrieve r retrNode], Returned None)
          else (case dbNode of
                  None \<Rightarrow> ([EvRetrieve r retrNode], Panicked nil_deref)
                | Some nd \<Rightarrow>
                    (case InsertRetrieval e r retrNode of
                       Some er \<Rightarrow> ([EvRetrieve r retrNode, EvInsertRetrieval r retrNode],
                                   Returned (Some (wrap ''insert retrieve'' er)))
                     | None \<Rightarrow> ([EvRetrieve r retrNode, EvInsertRetrieval r retrNode],
                                Returned None))))"

text \<open>
  Starting the goroutines (lines 338 to 363): one for each \<open>i\<close> from 0 to
  \<open>len(nodes) - 2\<close>, on node \<open>(provNode + i + 1) % len(nodes)\<close>.
\<close>

definition retrieval_tasks ::
  "sched_env \<Rightarrow> bool \<Rightarrow> models_Node option list \<Rightarrow> nat \<Rightarrow> nat \<Rightarrow> cid \<Rightarrow> nat
     \<Rightarrow> (event list \<times> outcome) list" where
  "retrieval_tasks e dbc dbNodes n r content p =
     map (\<lambda>i. retrieval_task e dbc dbNodes r content ((p + i + 1) mod n)) [0..<n - 1]"

text \<open>
  Persisting the provide result (lines 332 to 336); \<open>dbNodes[provNode].ID\<close> panics on
  a nil entry.
\<close>

definition insert_provide_step ::
  "sched_env \<Rightarrow> bool \<Rightarrow> models_Node option list \<Rightarrow> nat \<Rightarrow> nat \<Rightarrow> event list \<times> outcome" where
  "insert_provide_step e dbc dbNodes r p =
     (if dbc
      then (case dbNodes ! p of
              None \<Rightarrow> ([], Panicked nil_deref)
            | Some nd \<Rightarrow> ([EvInsertProvide r p],
                          Returned (map_option (wrap ''insert provide'') (InsertProvide e r p))))
      else ([], Returned None))"

text \<open>
  Waiting for the goroutines and advancing the provider index (lines 364 to 369). The
  phase ends the loop with an outcome (\<open>Inl\<close>) or hands the next provider index to the
  next round (\<open>Inr\<close>).
\<close>

definition retrieval_phase ::
  "sched_env \<Rightarrow> bool \<Rightarrow> models_Node option list \<Rightarrow> nat \<Rightarrow> nat \<Rightarrow> cid \<Rightarrow> nat
     \<Rightarrow> event list \<times> (outcome + nat)" where
  "retrieval_phase e dbc dbNodes n r content p =
     (let tasks = retrieval_tasks e dbc dbNodes n r content p;
          evs = concat (map fst tasks)
      in case errg_Wait (map snd tasks) of
           Panicked m \<Rightarrow> (evs, Inl (Panicked m))
         | Returned (Some er) \<Rightarrow> (evs, Inl (Returned (Some (wrap ''waitgroup retrieve'' er))))
         | Returned None \<Rightarrow> (evs, Inr ((p + 1) mod n)))"

text \<open>What follows a successful provide (lines 332 to 369).\<close>

definition after_provide ::
  "sched_env \<Rightarrow> bool \<Rightarrow> models_Node option list \<Rightarrow> nat \<Rightarrow> nat \<Rightarrow> cid \<Rightarrow> nat
     \<Rightarrow> event list \<times> (outcome + nat)" where
  "after_provide e dbc dbNodes n r content p =
     (case insert_provide_step e dbc dbNodes r p of
        (ins, Returned None) \<Rightarrow>
          (case retrieval_phase e dbc dbNodes n r content p of
             (evs, next) \<Rightarrow> (ins @ evs, next))
      | (ins, out) \<Rightarrow> (ins, Inl out))"

text \<open>
  The body of the loop (lines 315 to 369). \<open>nodes[provNode]\<close> panics out of range, and
  \<open>dbNodes[provNode].ID\<close> in the warning of line 328 panics on a nil entry.
\<close>

definition round_body ::
  "sched_env \<Rightarrow> bool \<Rightarrow> models_Node option list \<Rightarrow> nat \<Rightarrow> nat \<Rightarrow> nat
     \<Rightarrow> event list \<times> (outcome + nat)" where
  "round_body e dbc dbNodes n r p =
     (case Context_Err e r of
        Some er \<Rightarrow> ([], Inl (Returned (Some er)))
      | None \<Rightarrow>
     (case NewRandomContent e r of
        Inl er \<Rightarrow> ([EvNewRandomContent r], Inl (Returned (Some (wrap ''new random content'' er))))
      | Inr content \<Rightarrow>
     if \<not> p < n then ([EvNewRandomContent r], Inl (Panicked index_out_of_range))
     else
     (case Provide e r p content of
        Some er \<Rightarrow>
          (case dbNodes ! p of
             None \<Rightarrow> ([EvNewRandomContent r, EvProvide r p], Inl (Panicked nil_deref))
           | Some nd \<Rightarrow> ([EvNewRandomContent r, EvProvide r p],
                         Inl (Returned (Some (wrap ''provide content'' er)))))
      | None \<Rightarrow>
     (case after_provide e dbc dbNodes n r content p of
        (evs, next) \<Rightarrow> ([EvNewRandomContent r, EvProvide r p] @ evs, next)))))"

subsection \<open>The loop and the whole action\<close>

text \<open>
  The loop has no bound of its own: \<open>rounds\<close> runs at most \<open>fuel\<close> rounds of it, from
  round \<open>r\<close> with provider index \<open>p\<close>. The \<open>result\<close> is \<open>None\<close> while the loop is still
  running after these rounds.
\<close>

fun rounds ::
  "sched_env \<Rightarrow> bool \<Rightarrow> models_Node option list \<Rightarrow> nat \<Rightarrow> nat \<Rightarrow> nat \<Rightarrow> nat \<Rightarrow> run" where
  "rounds e dbc dbNodes n 0 r p = \<lparr>trace = [], result = None, completed = r, provNode = p\<rparr>"
| "rounds e dbc dbNodes n (Suc k) r p =
     (case round_body e dbc dbNodes n r p of
        (evs, Inl out) \<Rightarrow> \<lparr>trace = evs, result = Some out, completed = r, provNode = p\<rparr>
      | (evs, Inr p') \<Rightarrow>
          (let rest = rounds e dbc dbNodes n k (Suc r) p'
           in rest\<lparr>trace := evs @ trace rest\<rparr>))"

definition stopped :: "event list \<Rightarrow> err \<Rightarrow> run" where
  "stopped evs er = \<lparr>trace = evs, result = Some (Returned (Some er)), completed = 0, provNode = 0\<rparr>"

text \<open>
  \<open>ScheduleAction\<close> on a fleet of \<open>n\<close> nodes (lines 246 to 371). \<open>dbc\<close> is whether the
  database handle is non-nil.
\<close>

definition ScheduleAction :: "sched_env \<Rightarrow> nat \<Rightarrow> nat \<Rightarrow> run" where
  "ScheduleAction e n fuel =
     (let dbc = \<not> dry_run e;
          ev0 = (if dbc then [EvInitDBClient] else [])
      in case (if dbc then InitDBClient e else None) of
           Some er \<Rightarrow> stopped ev0 (wrap ''init db client'' er)
         | None \<Rightarrow>
      if \<not> ReadBuildInfo e then stopped ev0 (wrap ''read build info'' ''%!w(<nil>)'')
      else
      (let ev1 = ev0 @ (if dbc then [EvInitRun] else [])
       in case (if dbc then InitRun e else None) of
            Some er \<Rightarrow> stopped ev1 (wrap ''init run'' er)
          | None \<Rightarrow>
      (case readiness_barrier e dbc n of
         (evs, Panicked m, dbNodes) \<Rightarrow>
           \<lparr>trace = ev1 @ evs, result = Some (Panicked m), completed = 0, provNode = 0\<rparr>
       | (evs, Returned (Some er), dbNodes) \<Rightarrow>
           stopped (ev1 @ evs) (wrap ''waiting for parsec node APIs'' er)
       | (evs, Returned None, dbNodes) \<Rightarrow>
           (let loop = rounds e dbc dbNodes n fuel 0 0
            in loop\<lparr>trace := ev1 @ evs @ trace loop\<rparr>))))"

subsection \<open>Observations on traces\<close>

text \<open>The round an event belongs to, if it belongs to one.\<close>

fun ev_round :: "event \<Rightarrow> nat option" where
  "ev_round (EvNewRandomContent r) = Some r"
| "ev_round (EvProvide r p) = Some r"
| "ev_round (EvInsertProvide r p) = Some r"
| "ev_round (EvRetrieve r q) = Some r"
| "ev_round (EvInsertRetrieval r q) = Some r"
| "ev_round _ = None"

definition round_events :: "nat \<Rightarrow> event list \<Rightarrow> event list" where
  "round_events r evs = filter (\<lambda>ev. ev_round ev = Some r) evs"

text \<open>The nodes of the calls of each kind in an event list, in order.\<close>

fun provides :: "event list \<Rightarrow> nat list" where
  "provides [] = []"
| "provides (EvProvide r p # evs) = p # provides evs"
| "provides (_ # evs) = provides evs"

fun retrieves :: "event list \<Rightarrow> nat list" where
  "retrieves [] = []"
| "retrieves (EvRetrieve r q # evs) = q # retrieves evs"
| "retrieves (_ # evs) = retrieves evs"

fun provide_records :: "event list \<Rightarrow> nat list" where
  "provide_records [] = []"
| "provide_records (EvInsertProvide r p # evs) = p # provide_records evs"
| "provide_records (_ # evs) = provide_records evs"

fun retrieval_records :: "event list \<Rightarrow> nat list" where
  "retrieval_records [] = []"
| "retrieval_records (EvInsertRetrieval r q # evs) = q # retrieval_records evs"
| "retrieval_records (_ # evs) = retrieval_records evs"

fun persistence :: "event \<Rightarrow> bool" where
  "persistence EvInitDBClient = True"
| "persistence EvInitRun = True"
| "persistence (EvInsertNode i) = True"
| "persistence (EvInsertProvide r p) = True"
| "persistence (EvInsertRetrieval r q) = True"
| "persistence _ = False"

text \<open>A trace without its persistence calls.\<close>

definition measured :: "event list \<Rightarrow> event list" where
  "measured evs = filter (\<lambda>ev. \<not> persistence ev) evs"

text \<open>The events of start-up, with or without a database handle.\<close>

fun startup_event :: "bool \<Rightarrow> event \<Rightarrow> bool" where
  "startup_event dbc EvInitDBClient = dbc"
| "startup_event dbc EvInitRun = dbc"
| "startup_event dbc (EvWaitForAPI i) = True"
| "startup_event dbc (EvInsertNode i) = dbc"
| "startup_event dbc _ = False"

text \<open>The events of a round that runs to its end, as \<open>round_body\<close> lays them out.\<close>

definition retrieval_events :: "bool \<Rightarrow> nat \<Rightarrow> nat \<Rightarrow> event list" where
  "retrieval_events dbc r q = EvRetrieve r q # (if dbc then [EvInsertRetrieval r q] else [])"

definition completed_round :: "bool \<Rightarrow> nat \<Rightarrow> nat \<Rightarrow> nat \<Rightarrow> event list" where
  "completed_round dbc n r p =
     [EvNewRandomContent r, EvProvide r p] @ (if dbc then [EvInsertProvide r p] else [])
     @ concat (map (\<lambda>i. retrieval_events dbc r ((p + i + 1) mod n)) [0..<n - 1])"

section \<open>Example inputs\<close>

text \<open>
  An agent whose decoders accept everything (the body is the selector), whose DHT and
  indexer find nothing, and a host connected to \<open>peerA\<close>.
\<close>

definition ex_env :: agent_env where
  "ex_env = \<lparr>json_Unmarshal = (\<lambda>d. Inr \<lparr>Routing = d\<rparr>), cid_Decode = (\<lambda>x. Inr x),
     IndexerLookup = (\<lambda>c. Inr []), FindProvidersAsync = (\<lambda>c. NoProviders), lookup_time = 5,
     write_err = (\<lambda>d. None)\<rparr>"

definition ex_state :: agent_state where
  "ex_state = \<lparr>conns = {''peerA''}, peerstore = {''peerA''}, addrbook = (\<lambda>p. [''addr'']),
     rt_size = 20, clock = 100, status = None, written = [], calls = []\<rparr>"

definition ex_request :: "string \<Rightarrow> request" where
  "ex_request routing = \<lparr>body_read = Inr routing, cid_param = ''cid1'', scheduler_id = ''s''\<rparr>"

text \<open>
  The same agent when the DHT finds provider \<open>peerA\<close>, when the context is done before a
  provider is found, and when the indexer lookup fails.
\<close>

definition ex_env_found :: agent_env where
  "ex_env_found = ex_env\<lparr>FindProvidersAsync := (\<lambda>c. FirstProvider \<lparr>ID = ''peerA'', Addrs = []\<rparr>)\<rparr>"

definition ex_env_ctx_done :: agent_env where
  "ex_env_ctx_done = ex_env\<lparr>FindProvidersAsync := (\<lambda>c. CtxDone ''context deadline exceeded'')\<rparr>"

definition ex_env_lookup_fails :: agent_env where
  "ex_env_lookup_fails = ex_env\<lparr>IndexerLookup := (\<lambda>c. Inl ''connection refused'')\<rparr>"






text \<open>
  A fleet of healthy nodes with a database, and the \<open>dbNodes\<close> its readiness barrier
  stores for three nodes.
\<close>

definition ex_sched :: sched_env where
  "ex_sched = \<lparr>dry_run = False, InitDBClient = None, ReadBuildInfo = True, InitRun = None,
     WaitForAPI = (\<lambda>i. None), InsertNode = (\<lambda>i. Inr \<lparr>NodeID = int i\<rparr>),
     Context_Err = (\<lambda>r. None),
     NewRandomContent = (\<lambda>r. Inr ''cid''), Provide = (\<lambda>r p c. None),
     InsertProvide = (\<lambda>r p. None), Retrieve = (\<lambda>r q c. None),
     InsertRetrieval = (\<lambda>r q. None)\<rparr>"

definition ex_dbNodes :: "models_Node option list" where
  "ex_dbNodes = [Some \<lparr>NodeID = 0\<rparr>, Some \<lparr>NodeID = 1\<rparr>, Some \<lparr>NodeID = 2\<rparr>]"

text \<open>
  A fleet whose second round cannot provide: the call of round 1 fails with a transport
  error. \<open>ex_provide_fails\<close> persists its results; \<open>ex_provide_fails_dry\<close> is the same
  execution with dry-run enabled.
\<close>

definition ex_provide_fails :: sched_env where
  "ex_provide_fails =
     ex_sched\<lparr>Provide := (\<lambda>r p c. if r = 1 then Some ''connection refused'' else None)\<rparr>"

definition ex_provide_fails_dry :: sched_env where
  "ex_provide_fails_dry = ex_provide_fails\<lparr>dry_run := True\<rparr>"

section \<open>Properties of the retrieve handler\<close>

lemmas agent_defs = retrieve_def retrieve_dht_def retrieve_ipni_def respond_def rw_Write_def
  rw_WriteHeader_def send_status_def json_Marshal_def time_Now_def time_Since_def chan_recv_def
  Validate_def errors_Is_def ClosePeer_def RemovePeer_def ClearAddrs_def Observe_def
  FormatBool_def decodes_to_def RoutingIPNI_def RoutingDHT_def StatusOK_def ErrEmptyPeerID_def

lemmas ex_defs = ex_env_def ex_request_def ex_state_def ex_env_found_def ex_env_ctx_done_def
  ex_env_lookup_fails_def

lemma retrieve_decoded:
  assumes "decodes_to e r rr c"
  shows "retrieve e r s =
           (case (if Routing rr = RoutingIPNI
                  then retrieve_ipni e r c \<lparr>CID = c, Duration = 0, RoutingTableSize = rt_size s, Error = []\<rparr> s
                  else retrieve_dht e r c \<lparr>CID = c, Duration = 0, RoutingTableSize = rt_size s, Error = []\<rparr> s) of
              (resp, s1) \<Rightarrow> respond e resp s1)"
proof (cases "body_read r")
  case (Inl er)
  with assms show ?thesis by (simp add: decodes_to_def)
next
  case (Inr data)
  with assms have "json_Unmarshal e data = Inr rr" "cid_Decode e (cid_param r) = Inr c"
    by (simp_all add: decodes_to_def)
  with Inr show ?thesis by (simp add: retrieve_def Let_def)
qed

lemma respond_status: "status s = None \<Longrightarrow> status (respond e resp s) = Some StatusOK"
  by (simp add: respond_def json_Marshal_def rw_Write_def rw_WriteHeader_def send_status_def Let_def
      split: option.splits)

lemma respond_calls:
  "calls (respond e resp s) =
     calls s @ CallWrite (Json resp) #
       (case write_err e (Json resp) of
          None \<Rightarrow> []
        | Some er \<Rightarrow> [CallWrite (Text er), CallWriteHeader StatusInternalServerError])"
  by (simp add: respond_def json_Marshal_def rw_Write_def rw_WriteHeader_def send_status_def Let_def
      split: option.splits)

lemma respond_written:
  "write_err e (Json resp) = None \<Longrightarrow> written (respond e resp s) = written s @ [Json resp]"
  by (simp add: respond_def json_Marshal_def rw_Write_def rw_WriteHeader_def send_status_def Let_def)

lemma respond_host:
  "conns (respond e resp s) = conns s" "peerstore (respond e resp s) = peerstore s"
  "addrbook (respond e resp s) = addrbook s" "clock (respond e resp s) = clock s"
  by (simp_all add: respond_def json_Marshal_def rw_Write_def rw_WriteHeader_def send_status_def Let_def
      split: option.splits)

text \<open>The default case when the received identity is empty.\<close>

lemma retrieve_dht_empty:
  assumes "ID (chan_recv (FindProvidersAsync e c)) = []"
  shows "retrieve_dht e r c resp s =
           (resp\<lparr>Duration := int (lookup_time e), Error := ''not found''\<rparr>,
            s\<lparr>clock := clock s + int (lookup_time e),
              calls := calls s @ [CallFindProvidersAsync c 1,
                CallObserve ''retrieval_ttfpr'' RoutingDHT ''false'' (scheduler_id r)
                  (int (lookup_time e))]\<rparr>)"
  using assms
  by (simp add: retrieve_dht_def Let_def Validate_def errors_Is_def time_Now_def time_Since_def
      Observe_def FormatBool_def)

lemma retrieve_dht_found:
  assumes "ID (chan_recv (FindProvidersAsync e c)) = p" and "p \<noteq> []"
  shows "retrieve_dht e r c resp s =
           (resp\<lparr>Duration := int (lookup_time e)\<rparr>,
            s\<lparr>conns := conns s - {p}, peerstore := peerstore s - {p},
              addrbook := (addrbook s)(p := []),
              clock := clock s + int (lookup_time e),
              calls := calls s @ [CallFindProvidersAsync c 1, CallClosePeer p, CallRemovePeer p,
                CallClearAddrs p,
                CallObserve ''retrieval_ttfpr'' RoutingDHT (FormatBool (Error resp = []))
                  (scheduler_id r) (int (lookup_time e))]\<rparr>)"
  using assms
  by (simp add: retrieve_dht_def Let_def Validate_def errors_Is_def time_Now_def time_Since_def
      Observe_def ClosePeer_def RemovePeer_def ClearAddrs_def)

lemma retrieve_ipni_eq:
  "retrieve_ipni e r c resp s =
     (let er = (case IndexerLookup e c of
                  Inl er \<Rightarrow> er
                | Inr results \<Rightarrow> if results = [] then ''not found'' else Error resp)
      in (resp\<lparr>Duration := int (lookup_time e), Error := er\<rparr>,
          s\<lparr>clock := clock s + int (lookup_time e),
            calls := calls s @ [CallIndexerLookup c,
              CallObserve ''retrieval_ttfpr'' RoutingIPNI (FormatBool (er = [])) (scheduler_id r)
                (int (lookup_time e))]\<rparr>))"
  by (simp add: retrieve_ipni_def Let_def time_Now_def time_Since_def Observe_def
      split: sum.splits)


lemma retrieve_dht_path:
  assumes "decodes_to e r rr c" and "Routing rr \<noteq> RoutingIPNI"
  shows "retrieve e r s =
           (case retrieve_dht e r c
                   \<lparr>CID = c, Duration = 0, RoutingTableSize = rt_size s, Error = []\<rparr> s of
              (resp, s1) \<Rightarrow> respond e resp s1)"
  using assms by (simp add: retrieve_decoded)

lemma retrieve_dht_empty_state:
  assumes "decodes_to e r rr c" and "Routing rr \<noteq> RoutingIPNI"
    and "ID (chan_recv (FindProvidersAsync e c)) = []"
  shows "retrieve e r s =
           respond e \<lparr>CID = c, Duration = int (lookup_time e), RoutingTableSize = rt_size s,
                       Error = ''not found''\<rparr>
             (s\<lparr>clock := clock s + int (lookup_time e),
                calls := calls s @ [CallFindProvidersAsync c 1,
                  CallObserve ''retrieval_ttfpr'' RoutingDHT ''false'' (scheduler_id r)
                    (int (lookup_time e))]\<rparr>)"
  using assms by (simp add: retrieve_dht_path retrieve_dht_empty)

lemma retrieve_dht_found_state:
  assumes "decodes_to e r rr c" and "Routing rr \<noteq> RoutingIPNI"
    and "ID (chan_recv (FindProvidersAsync e c)) = p" and "p \<noteq> []"
  shows "retrieve e r s =
           respond e \<lparr>CID = c, Duration = int (lookup_time e), RoutingTableSize = rt_size s,
                       Error = []\<rparr>
             (s\<lparr>conns := conns s - {p}, peerstore := peerstore s - {p},
                addrbook := (addrbook s)(p := []),
                clock := clock s + int (lookup_time e),
                calls := calls s @ [CallFindProvidersAsync c 1, CallClosePeer p, CallRemovePeer p,
                  CallClearAddrs p,
                  CallObserve ''retrieval_ttfpr'' RoutingDHT ''true'' (scheduler_id r)
                    (int (lookup_time e))]\<rparr>)"
  using assms by (simp add: retrieve_dht_path retrieve_dht_found FormatBool_def)

lemma retrieve_ipni_state:
  assumes "decodes_to e r rr c" and "Routing rr = RoutingIPNI"
  shows "retrieve e r s =
           (let er = (case IndexerLookup e c of
                        Inl er \<Rightarrow> er
                      | Inr results \<Rightarrow> if results = [] then ''not found'' else [])
            in respond e \<lparr>CID = c, Duration = int (lookup_time e), RoutingTableSize = rt_size s,
                          Error = er\<rparr>
                 (s\<lparr>clock := clock s + int (lookup_time e),
                    calls := calls s @ [CallIndexerLookup c,
                      CallObserve ''retrieval_ttfpr'' RoutingIPNI (FormatBool (er = []))
                        (scheduler_id r) (int (lookup_time e))]\<rparr>))"
  using assms by (simp add: retrieve_decoded retrieve_ipni_eq Let_def split: sum.splits)

text \<open>
  C3: a DHT retrieval whose received provider identity fails validation (the empty
  identity) answers with error \<open>not found\<close> on the normal path: the status is 200, the
  JSON response handed to the writer carries the measured duration, which is the time the
  clock advanced and is not negative, and a non-empty error field.
\<close>

theorem dht_invalid_identity_not_found:
  assumes "decodes_to e r rr c" and "Routing rr \<noteq> RoutingIPNI" and "status s = None"
    and "Validate (ID (chan_recv (FindProvidersAsync e c))) \<noteq> None"
  shows "let s' = retrieve e r s;
             resp = \<lparr>CID = c, Duration = clock s' - clock s, RoutingTableSize = rt_size s,
                      Error = ''not found''\<rparr>
         in status s' = Some StatusOK
            \<and> (\<exists>rest. calls s' = calls s @ [CallFindProvidersAsync c 1,
                   CallObserve ''retrieval_ttfpr'' RoutingDHT ''false'' (scheduler_id r)
                     (Duration resp),
                   CallWrite (Json resp)] @ rest)
            \<and> (write_err e (Json resp) = None \<longrightarrow> written s' = written s @ [Json resp])
            \<and> 0 \<le> Duration resp \<and> Error resp \<noteq> []"
proof -
  from assms(4) have empty: "ID (chan_recv (FindProvidersAsync e c)) = []"
    by (simp add: Validate_def split: if_splits)
  note st = retrieve_dht_empty_state [OF assms(1,2) empty, of s]
  show ?thesis
    unfolding Let_def st
    by (simp add: respond_status assms(3) respond_calls respond_written respond_host)
qed


theorem dht_invalid_identity_not_found_witness:
  "decodes_to ex_env (ex_request ''DHT'') \<lparr>Routing = ''DHT''\<rparr> ''cid1''
   \<and> Routing \<lparr>Routing = ''DHT''\<rparr> \<noteq> RoutingIPNI \<and> status ex_state = None
   \<and> Validate (ID (chan_recv (FindProvidersAsync ex_env ''cid1''))) \<noteq> None
   \<and> write_err ex_env (Json \<lparr>CID = ''cid1'', Duration = 5, RoutingTableSize = 20,
         Error = ''not found''\<rparr>) = None
   \<and> status (retrieve ex_env (ex_request ''DHT'') ex_state) = Some 200
   \<and> written (retrieve ex_env (ex_request ''DHT'') ex_state) =
       [Json \<lparr>CID = ''cid1'', Duration = 5, RoutingTableSize = 20, Error = ''not found''\<rparr>]"
  using dht_invalid_identity_not_found
    [of ex_env "ex_request ''DHT''" "\<lparr>Routing = ''DHT''\<rparr>" "''cid1''" ex_state]
  by (simp add: ex_defs agent_defs Let_def)

text \<open>
  C8: a DHT retrieval that receives a provider with a non-empty identity closes the
  connection to it, removes its peerstore entry and clears its addresses, in this order
  and before the response is handed to the writer; afterwards the host has no connection,
  entry or address for that provider.
\<close>

theorem dht_found_provider_cleanup:
  assumes "decodes_to e r rr c" and "Routing rr \<noteq> RoutingIPNI"
    and "FindProvidersAsync e c = FirstProvider ai" and "ID ai \<noteq> []"
  shows "let s' = retrieve e r s;
             resp = \<lparr>CID = c, Duration = clock s' - clock s, RoutingTableSize = rt_size s,
                      Error = []\<rparr>
         in conns s' = conns s - {ID ai} \<and> peerstore s' = peerstore s - {ID ai}
            \<and> addrbook s' = (addrbook s)(ID ai := [])
            \<and> ID ai \<notin> conns s' \<and> ID ai \<notin> peerstore s' \<and> addrbook s' (ID ai) = []
            \<and> (\<exists>rest. calls s' = calls s @ [CallFindProvidersAsync c 1, CallClosePeer (ID ai),
                   CallRemovePeer (ID ai), CallClearAddrs (ID ai),
                   CallObserve ''retrieval_ttfpr'' RoutingDHT ''true'' (scheduler_id r)
                     (Duration resp),
                   CallWrite (Json resp)] @ rest)"
proof -
  from assms(3) have p: "ID (chan_recv (FindProvidersAsync e c)) = ID ai"
    by (simp add: chan_recv_def)
  note st = retrieve_dht_found_state [OF assms(1,2) p assms(4), of s]
  show ?thesis
    unfolding Let_def st
    by (simp add: respond_calls respond_host)
qed

theorem dht_found_provider_cleanup_witness:
  "decodes_to ex_env_found (ex_request ''DHT'') \<lparr>Routing = ''DHT''\<rparr> ''cid1''
   \<and> Routing \<lparr>Routing = ''DHT''\<rparr> \<noteq> RoutingIPNI
   \<and> FindProvidersAsync ex_env_found ''cid1'' = FirstProvider \<lparr>ID = ''peerA'', Addrs = []\<rparr>
   \<and> ID \<lparr>ID = ''peerA'', Addrs = []\<rparr> \<noteq> []
   \<and> ''peerA'' \<in> conns ex_state \<and> addrbook ex_state ''peerA'' = [''addr'']
   \<and> conns (retrieve ex_env_found (ex_request ''DHT'') ex_state) = {}
   \<and> peerstore (retrieve ex_env_found (ex_request ''DHT'') ex_state) = {}
   \<and> addrbook (retrieve ex_env_found (ex_request ''DHT'') ex_state) ''peerA'' = []"
  using dht_found_provider_cleanup
    [of ex_env_found "ex_request ''DHT''" "\<lparr>Routing = ''DHT''\<rparr>" "''cid1''"
        "\<lparr>ID = ''peerA'', Addrs = []\<rparr>" ex_state]
  by (simp add: ex_defs agent_defs Let_def)





text \<open>
  C10: when the provider channel closes because the context is done, the DHT retrieval
  answers \<open>not found\<close> with the elapsed duration and status 200, and the handler's final
  state is the one it reaches when the channel closes for lack of providers: the
  context's error appears nowhere.
\<close>

theorem dht_context_done_is_not_found:
  assumes "decodes_to e r rr c" and "Routing rr \<noteq> RoutingIPNI" and "status s = None"
    and "FindProvidersAsync e c = CtxDone er"
  shows "let s' = retrieve e r s;
             resp = \<lparr>CID = c, Duration = clock s' - clock s, RoutingTableSize = rt_size s,
                      Error = ''not found''\<rparr>
         in status s' = Some StatusOK
            \<and> (\<exists>rest. calls s' = calls s @ [CallFindProvidersAsync c 1,
                   CallObserve ''retrieval_ttfpr'' RoutingDHT ''false'' (scheduler_id r)
                     (Duration resp),
                   CallWrite (Json resp)] @ rest)
            \<and> (write_err e (Json resp) = None \<longrightarrow> written s' = written s @ [Json resp])
            \<and> s' = retrieve (e\<lparr>FindProvidersAsync := (\<lambda>x. NoProviders)\<rparr>) r s"
proof -
  let ?e' = "e\<lparr>FindProvidersAsync := (\<lambda>x. NoProviders)\<rparr>"
  from assms(4) have empty: "ID (chan_recv (FindProvidersAsync e c)) = []"
    by (simp add: chan_recv_def)
  have empty': "ID (chan_recv (FindProvidersAsync ?e' c)) = []"
    by (simp add: chan_recv_def)
  from assms(1) have dec': "decodes_to ?e' r rr c"
    by (simp add: decodes_to_def split: sum.splits)
  note st = retrieve_dht_empty_state [OF assms(1,2) empty, of s]
  note st' = retrieve_dht_empty_state [OF dec' assms(2) empty', of s]
  have same: "retrieve e r s = retrieve ?e' r s"
    unfolding st st'
    by (simp add: respond_def rw_Write_def json_Marshal_def)
  show ?thesis
    unfolding Let_def same [symmetric]
    unfolding st
    by (simp add: respond_status assms(3) respond_calls respond_written respond_host)
qed

theorem dht_context_done_is_not_found_witness:
  "decodes_to ex_env_ctx_done (ex_request ''DHT'') \<lparr>Routing = ''DHT''\<rparr> ''cid1''
   \<and> Routing \<lparr>Routing = ''DHT''\<rparr> \<noteq> RoutingIPNI \<and> status ex_state = None
   \<and> FindProvidersAsync ex_env_ctx_done ''cid1'' = CtxDone ''context deadline exceeded''
   \<and> write_err ex_env_ctx_done (Json \<lparr>CID = ''cid1'', Duration = 5, RoutingTableSize = 20,
         Error = ''not found''\<rparr>) = None
   \<and> status (retrieve ex_env_ctx_done (ex_request ''DHT'') ex_state) = Some StatusOK
   \<and> written (retrieve ex_env_ctx_done (ex_request ''DHT'') ex_state) =
       [Json \<lparr>CID = ''cid1'', Duration = 5, RoutingTableSize = 20, Error = ''not found''\<rparr>]
   \<and> retrieve ex_env_ctx_done (ex_request ''DHT'') ex_state =
       retrieve (ex_env_ctx_done\<lparr>FindProvidersAsync := (\<lambda>x. NoProviders)\<rparr>) (ex_request ''DHT'')
         ex_state"
  using dht_context_done_is_not_found
    [of ex_env_ctx_done "ex_request ''DHT''" "\<lparr>Routing = ''DHT''\<rparr>" "''cid1''" ex_state
        "''context deadline exceeded''"]
  by (simp add: ex_defs agent_defs Let_def)

text \<open>
  C4: an indexer retrieval answers with status 200 and the measured duration in every
  case; its error field is the lookup's error string when the lookup fails, \<open>not found\<close>
  when it succeeds with no result, and empty otherwise.
\<close>

theorem indexer_outcomes:
  assumes "decodes_to e r rr c" and "Routing rr = RoutingIPNI" and "status s = None"
  shows "let s' = retrieve e r s;
             resp = \<lparr>CID = c, Duration = clock s' - clock s, RoutingTableSize = rt_size s,
                      Error = (case IndexerLookup e c of
                                 Inl er \<Rightarrow> er
                               | Inr results \<Rightarrow> if results = [] then ''not found'' else [])\<rparr>
         in status s' = Some StatusOK
            \<and> (\<exists>rest. calls s' = calls s @ [CallIndexerLookup c,
                   CallObserve ''retrieval_ttfpr'' RoutingIPNI (FormatBool (Error resp = []))
                     (scheduler_id r) (Duration resp),
                   CallWrite (Json resp)] @ rest)
            \<and> (write_err e (Json resp) = None \<longrightarrow> written s' = written s @ [Json resp])
            \<and> 0 \<le> Duration resp"
proof -
  note st = retrieve_ipni_state [OF assms(1,2), of s]
  show ?thesis
    unfolding Let_def st
    by (simp add: respond_status assms(3) respond_calls respond_written respond_host)
qed

theorem indexer_outcomes_witness:
  "decodes_to ex_env_lookup_fails (ex_request ''IPNI'') \<lparr>Routing = ''IPNI''\<rparr> ''cid1''
   \<and> decodes_to ex_env (ex_request ''IPNI'') \<lparr>Routing = ''IPNI''\<rparr> ''cid1''
   \<and> Routing \<lparr>Routing = ''IPNI''\<rparr> = RoutingIPNI \<and> status ex_state = None
   \<and> write_err ex_env_lookup_fails (Json \<lparr>CID = ''cid1'', Duration = 5, RoutingTableSize = 20,
         Error = ''connection refused''\<rparr>) = None
   \<and> write_err ex_env (Json \<lparr>CID = ''cid1'', Duration = 5, RoutingTableSize = 20,
         Error = ''not found''\<rparr>) = None
   \<and> status (retrieve ex_env_lookup_fails (ex_request ''IPNI'') ex_state) = Some StatusOK
   \<and> written (retrieve ex_env_lookup_fails (ex_request ''IPNI'') ex_state) =
       [Json \<lparr>CID = ''cid1'', Duration = 5, RoutingTableSize = 20,
          Error = ''connection refused''\<rparr>]
   \<and> status (retrieve ex_env (ex_request ''IPNI'') ex_state) = Some StatusOK
   \<and> written (retrieve ex_env (ex_request ''IPNI'') ex_state) =
       [Json \<lparr>CID = ''cid1'', Duration = 5, RoutingTableSize = 20, Error = ''not found''\<rparr>]"
  using indexer_outcomes
    [of ex_env_lookup_fails "ex_request ''IPNI''" "\<lparr>Routing = ''IPNI''\<rparr>" "''cid1''" ex_state]
    indexer_outcomes [of ex_env "ex_request ''IPNI''" "\<lparr>Routing = ''IPNI''\<rparr>" "''cid1''" ex_state]
  by (simp add: ex_defs agent_defs Let_def)

section \<open>Properties of the schedule loop\<close>

subsection \<open>errg.Wait\<close>

lemma first_panic_None: "first_panic os = None \<Longrightarrow> Panicked m \<notin> set os"
  by (induction os rule: first_panic.induct) auto

lemma first_err_None: "first_err os = None \<Longrightarrow> Returned (Some er) \<notin> set os"
  by (induction os rule: first_err.induct) auto

lemma errg_Wait_nil: "errg_Wait os = Returned None \<Longrightarrow> o' \<in> set os \<Longrightarrow> o' = Returned None"
proof -
  assume w: "errg_Wait os = Returned None" and mem: "o' \<in> set os"
  from w have p: "first_panic os = None" and f: "first_err os = None"
    by (auto simp: errg_Wait_def split: option.splits)
  show ?thesis
  proof (cases o')
    case (Returned x)
    with f mem first_err_None [of os] show ?thesis by (cases x) auto
  next
    case (Panicked m)
    with p mem first_panic_None [of os m] show ?thesis by simp
  qed
qed

subsection \<open>One retrieval goroutine\<close>

lemma retrieval_task_nil:
  "retrieval_task e dbc dbNodes r content q = (evs, Returned None)
   \<Longrightarrow> evs = retrieval_events dbc r q"
  by (auto simp: retrieval_task_def retrieval_events_def Let_def split: option.splits if_splits)

lemma retrieval_task_events:
  "ev \<in> set (fst (retrieval_task e dbc dbNodes r content q))
   \<Longrightarrow> ev = EvRetrieve r q \<or> (dbc \<and> ev = EvInsertRetrieval r q)"
  by (auto simp: retrieval_task_def Let_def split: option.splits if_splits)

lemma retrieval_tasks_nil:
  assumes "errg_Wait (map snd (retrieval_tasks e dbc dbNodes n r content p)) = Returned None"
  shows "concat (map fst (retrieval_tasks e dbc dbNodes n r content p)) =
           concat (map (\<lambda>i. retrieval_events dbc r ((p + i + 1) mod n)) [0..<n - 1])"
proof -
  have "fst (retrieval_task e dbc dbNodes r content ((p + i + 1) mod n)) =
          retrieval_events dbc r ((p + i + 1) mod n)" if "i \<in> set [0..<n - 1]" for i
  proof -
    from that have "snd (retrieval_task e dbc dbNodes r content ((p + i + 1) mod n))
                      \<in> set (map snd (retrieval_tasks e dbc dbNodes n r content p))"
      by (auto simp: retrieval_tasks_def image_iff intro!: bexI [of _ i])
    from errg_Wait_nil [OF assms this] show ?thesis
      using retrieval_task_nil by (metis prod.collapse)
  qed
  then have "map fst (retrieval_tasks e dbc dbNodes n r content p) =
               map (\<lambda>i. retrieval_events dbc r ((p + i + 1) mod n)) [0..<n - 1]"
    unfolding retrieval_tasks_def map_map comp_def by (intro map_cong refl)
  then show ?thesis by simp
qed

lemma retrieval_tasks_events:
  "ev \<in> set (concat (map fst (retrieval_tasks e dbc dbNodes n r content p)))
   \<Longrightarrow> (\<exists>q. ev = EvRetrieve r q) \<or> (\<exists>q. dbc \<and> ev = EvInsertRetrieval r q)"
  by (auto simp: retrieval_tasks_def dest: retrieval_task_events)


subsection \<open>One round\<close>

lemma insert_provide_step_nil:
  "insert_provide_step e dbc dbNodes r p = (ins, Returned None)
   \<Longrightarrow> ins = (if dbc then [EvInsertProvide r p] else [])"
  by (auto simp: insert_provide_step_def split: if_splits option.splits)

lemma insert_provide_step_events:
  "ev \<in> set (fst (insert_provide_step e dbc dbNodes r p)) \<Longrightarrow> dbc \<and> ev = EvInsertProvide r p"
  by (auto simp: insert_provide_step_def split: if_splits option.splits)

lemma retrieval_phase_completed:
  assumes "retrieval_phase e dbc dbNodes n r content p = (evs, Inr p')"
  shows "evs = concat (map (\<lambda>i. retrieval_events dbc r ((p + i + 1) mod n)) [0..<n - 1])
         \<and> p' = (p + 1) mod n"
proof -
  let ?tasks = "retrieval_tasks e dbc dbNodes n r content p"
  from assms have w: "errg_Wait (map snd ?tasks) = Returned None"
    by (auto simp: retrieval_phase_def Let_def split: outcome.splits option.splits)
  with assms have "evs = concat (map fst ?tasks)" and "p' = (p + 1) mod n"
    by (simp_all add: retrieval_phase_def Let_def)
  with retrieval_tasks_nil [OF w] show ?thesis by simp
qed

lemma retrieval_phase_events:
  "ev \<in> set (fst (retrieval_phase e dbc dbNodes n r content p))
   \<Longrightarrow> (\<exists>q. ev = EvRetrieve r q) \<or> (\<exists>q. dbc \<and> ev = EvInsertRetrieval r q)"
  using retrieval_tasks_events [of ev e dbc dbNodes n r content p]
  by (auto simp: retrieval_phase_def Let_def split: outcome.splits option.splits)

text \<open>The five ways a round goes, by what the collaborators answer.\<close>

lemma round_body_ctx_done:
  "Context_Err e r = Some er \<Longrightarrow> round_body e dbc dbNodes n r p = ([], Inl (Returned (Some er)))"
  by (simp add: round_body_def)

lemma round_body_no_content:
  "Context_Err e r = None \<Longrightarrow> NewRandomContent e r = Inl er
   \<Longrightarrow> round_body e dbc dbNodes n r p =
         ([EvNewRandomContent r], Inl (Returned (Some (wrap ''new random content'' er))))"
  by (simp add: round_body_def)

lemma round_body_out_of_range:
  "Context_Err e r = None \<Longrightarrow> NewRandomContent e r = Inr content \<Longrightarrow> \<not> p < n
   \<Longrightarrow> round_body e dbc dbNodes n r p = ([EvNewRandomContent r], Inl (Panicked index_out_of_range))"
  by (simp add: round_body_def)

lemma round_body_provide_failed:
  "Context_Err e r = None \<Longrightarrow> NewRandomContent e r = Inr content \<Longrightarrow> p < n
   \<Longrightarrow> Provide e r p content = Some er
   \<Longrightarrow> round_body e dbc dbNodes n r p =
         ([EvNewRandomContent r, EvProvide r p],
          Inl (case dbNodes ! p of
                 None \<Rightarrow> Panicked nil_deref
               | Some nd \<Rightarrow> Returned (Some (wrap ''provide content'' er))))"
  by (simp add: round_body_def split: option.splits)

lemma round_body_provided:
  "Context_Err e r = None \<Longrightarrow> NewRandomContent e r = Inr content \<Longrightarrow> p < n
   \<Longrightarrow> Provide e r p content = None
   \<Longrightarrow> round_body e dbc dbNodes n r p =
         (case after_provide e dbc dbNodes n r content p of
            (evs, next) \<Rightarrow> ([EvNewRandomContent r, EvProvide r p] @ evs, next))"
  by (simp add: round_body_def)

lemma round_body_cases:
  obtains (ctx_done) er where "Context_Err e r = Some er"
  | (no_content) er where "Context_Err e r = None" "NewRandomContent e r = Inl er"
  | (out_of_range) content where "Context_Err e r = None" "NewRandomContent e r = Inr content"
      "\<not> p < n"
  | (provide_failed) content er where "Context_Err e r = None"
      "NewRandomContent e r = Inr content" "p < n" "Provide e r p content = Some er"
  | (provided) content where "Context_Err e r = None" "NewRandomContent e r = Inr content"
      "p < n" "Provide e r p content = None"
  by (cases "Context_Err e r"; cases "NewRandomContent e r"; cases "p < n";
      cases "Provide e r p (projr (NewRandomContent e r))") auto

lemma after_provide_completed:
  assumes "after_provide e dbc dbNodes n r content p = (evs, Inr p')"
  shows "evs = (if dbc then [EvInsertProvide r p] else [])
               @ concat (map (\<lambda>i. retrieval_events dbc r ((p + i + 1) mod n)) [0..<n - 1])
         \<and> p' = (p + 1) mod n"
proof -
  obtain ins out where ips: "insert_provide_step e dbc dbNodes r p = (ins, out)"
    by (cases "insert_provide_step e dbc dbNodes r p")
  obtain revs nxt where rp: "retrieval_phase e dbc dbNodes n r content p = (revs, nxt)"
    by (cases "retrieval_phase e dbc dbNodes n r content p")
  have out: "out = Returned None"
    using assms unfolding after_provide_def ips
    by (auto split: outcome.splits option.splits)
  from assms have evs: "evs = ins @ revs" and nxt: "nxt = Inr p'"
    unfolding after_provide_def ips out rp by simp_all
  from ips out have ins: "ins = (if dbc then [EvInsertProvide r p] else [])"
    by (simp add: insert_provide_step_nil)
  from retrieval_phase_completed [of e dbc dbNodes n r content p revs p'] rp nxt
  have "revs = concat (map (\<lambda>i. retrieval_events dbc r ((p + i + 1) mod n)) [0..<n - 1])"
    and "p' = (p + 1) mod n" by simp_all
  with evs ins show ?thesis by simp
qed

lemma after_provide_events:
  assumes "ev \<in> set (fst (after_provide e dbc dbNodes n r content p))"
  shows "(dbc \<and> ev = EvInsertProvide r p) \<or> (\<exists>q. ev = EvRetrieve r q)
         \<or> (\<exists>q. dbc \<and> ev = EvInsertRetrieval r q)"
proof -
  obtain ins out where ips: "insert_provide_step e dbc dbNodes r p = (ins, out)"
    by (cases "insert_provide_step e dbc dbNodes r p")
  obtain revs nxt where rp: "retrieval_phase e dbc dbNodes n r content p = (revs, nxt)"
    by (cases "retrieval_phase e dbc dbNodes n r content p")
  from assms have "ev \<in> set ins \<or> ev \<in> set revs"
    unfolding after_provide_def ips rp
    by (auto split: outcome.splits option.splits)
  moreover have "ev \<in> set ins \<Longrightarrow> dbc \<and> ev = EvInsertProvide r p"
    using insert_provide_step_events [of ev e dbc dbNodes r p] ips by simp
  moreover have "ev \<in> set revs \<Longrightarrow> (\<exists>q. ev = EvRetrieve r q) \<or> (\<exists>q. dbc \<and> ev = EvInsertRetrieval r q)"
    using retrieval_phase_events [of ev e dbc dbNodes n r content p] rp by simp
  ultimately show ?thesis by auto
qed

lemma round_body_completed:
  assumes "round_body e dbc dbNodes n r p = (evs, Inr p')"
  shows "evs = completed_round dbc n r p \<and> p' = (p + 1) mod n \<and> p < n"
proof (cases rule: round_body_cases [where e = e and r = r and p = p and n = n])
  case (ctx_done er)
  with assms show ?thesis by (simp add: round_body_ctx_done)
next
  case (no_content er)
  with assms show ?thesis by (simp add: round_body_no_content)
next
  case (out_of_range content)
  with assms show ?thesis by (simp add: round_body_out_of_range)
next
  case (provide_failed content er)
  with assms show ?thesis by (simp add: round_body_provide_failed)
next
  case (provided content)
  obtain aevs nxt where ap: "after_provide e dbc dbNodes n r content p = (aevs, nxt)"
    by (cases "after_provide e dbc dbNodes n r content p")
  from assms have "evs = [EvNewRandomContent r, EvProvide r p] @ aevs" and "nxt = Inr p'"
    unfolding round_body_provided [OF provided] ap by simp_all
  with after_provide_completed [of e dbc dbNodes n r content p aevs p'] ap provided(3)
  show ?thesis by (simp add: completed_round_def)
qed

text \<open>Every event of a round carries its number; a retrieval comes after the provide.\<close>

lemma round_body_events:
  assumes "ev \<in> set (fst (round_body e dbc dbNodes n r p))"
  shows "ev = EvNewRandomContent r \<or> ev = EvProvide r p \<or> (dbc \<and> ev = EvInsertProvide r p)
         \<or> (\<exists>q. ev = EvRetrieve r q) \<or> (\<exists>q. dbc \<and> ev = EvInsertRetrieval r q)"
proof (cases rule: round_body_cases [where e = e and r = r and p = p and n = n])
  case (ctx_done er)
  with assms show ?thesis by (simp add: round_body_ctx_done)
next
  case (no_content er)
  with assms show ?thesis by (simp add: round_body_no_content)
next
  case (out_of_range content)
  with assms show ?thesis by (simp add: round_body_out_of_range)
next
  case (provide_failed content er)
  with assms show ?thesis by (auto simp: round_body_provide_failed)
next
  case (provided content)
  obtain aevs nxt where ap: "after_provide e dbc dbNodes n r content p = (aevs, nxt)"
    by (cases "after_provide e dbc dbNodes n r content p")
  from assms have "ev \<in> set ([EvNewRandomContent r, EvProvide r p] @ aevs)"
    unfolding round_body_provided [OF provided] ap by simp
  with after_provide_events [of ev e dbc dbNodes n r content p] ap
  show ?thesis by auto
qed

lemma round_body_retrieve_prefix:
  assumes "EvRetrieve r' q \<in> set (fst (round_body e dbc dbNodes n r p))"
  shows "\<exists>rest. fst (round_body e dbc dbNodes n r p) = EvNewRandomContent r # EvProvide r p # rest"
proof (cases rule: round_body_cases [where e = e and r = r and p = p and n = n])
  case (ctx_done er)
  with assms show ?thesis by (simp add: round_body_ctx_done)
next
  case (no_content er)
  with assms show ?thesis by (simp add: round_body_no_content)
next
  case (out_of_range content)
  with assms show ?thesis by (simp add: round_body_out_of_range)
next
  case (provide_failed content er)
  with assms show ?thesis by (simp add: round_body_provide_failed)
next
  case (provided content)
  show ?thesis
    unfolding round_body_provided [OF provided]
    by (simp split: prod.splits)
qed


subsection \<open>The loop\<close>

lemmas rounds_Suc = rounds.simps(2)

declare rounds.simps(2) [simp del]

lemma rounds_Suc_stop:
  "round_body e dbc dbNodes n r p = (evs, Inl out)
   \<Longrightarrow> rounds e dbc dbNodes n (Suc k) r p =
         \<lparr>trace = evs, result = Some out, completed = r, provNode = p\<rparr>"
  by (simp add: rounds_Suc)

lemma rounds_Suc_next:
  "round_body e dbc dbNodes n r p = (evs, Inr p')
   \<Longrightarrow> rounds e dbc dbNodes n (Suc k) r p =
         (rounds e dbc dbNodes n k (Suc r) p')\<lparr>trace := evs @ trace (rounds e dbc dbNodes n k (Suc r) p')\<rparr>"
  by (simp add: Let_def rounds_Suc)

lemma round_body_split:
  obtains (stop) evs out where "round_body e dbc dbNodes n r p = (evs, Inl out)"
  | (continue) evs p' where "round_body e dbc dbNodes n r p = (evs, Inr p')"
  by (cases "round_body e dbc dbNodes n r p"; cases "snd (round_body e dbc dbNodes n r p)") auto

lemma rounds_provNode:
  assumes "0 < n"
  shows "p = r mod n \<Longrightarrow>
         provNode (rounds e dbc dbNodes n k r p) = completed (rounds e dbc dbNodes n k r p) mod n"
proof (induction k arbitrary: r p)
  case 0
  then show ?case by simp
next
  case (Suc k)
  show ?case
  proof (cases rule: round_body_split [where e = e and dbc = dbc and dbNodes = dbNodes and n = n and r = r and p = p])
    case (stop evs out)
    with Suc.prems show ?thesis by (simp add: rounds_Suc_stop)
  next
    case (continue evs p')
    from round_body_completed [OF continue] Suc.prems have "p' = Suc r mod n"
      by (simp add: mod_Suc_eq)
    from Suc.IH [OF this] show ?thesis
      by (simp add: rounds_Suc_next [OF continue])
  qed
qed

lemma rounds_completed_ge: "r \<le> completed (rounds e dbc dbNodes n k r p)"
proof (induction k arbitrary: r p)
  case 0
  then show ?case by simp
next
  case (Suc k)
  show ?case
  proof (cases rule: round_body_split [where e = e and dbc = dbc and dbNodes = dbNodes and n = n and r = r and p = p])
    case (stop evs out)
    then show ?thesis by (simp add: rounds_Suc_stop)
  next
    case (continue evs p')
    from Suc.IH [of "Suc r" p'] show ?thesis
      by (simp add: rounds_Suc_next [OF continue])
  qed
qed

lemma rounds_events:
  assumes "0 < n"
  shows "p = r mod n \<Longrightarrow> ev \<in> set (trace (rounds e dbc dbNodes n k r p))
         \<Longrightarrow> \<exists>r'\<ge>r. ev = EvNewRandomContent r' \<or> ev = EvProvide r' (r' mod n)
                 \<or> (dbc \<and> ev = EvInsertProvide r' (r' mod n))
                 \<or> (\<exists>q. ev = EvRetrieve r' q) \<or> (\<exists>q. dbc \<and> ev = EvInsertRetrieval r' q)"
proof (induction k arbitrary: r p)
  case 0
  then show ?case by simp
next
  case (Suc k)
  show ?case
  proof (cases rule: round_body_split [where e = e and dbc = dbc and dbNodes = dbNodes and n = n and r = r and p = p])
    case (stop evs out)
    with Suc.prems have "ev \<in> set (fst (round_body e dbc dbNodes n r p))"
      by (simp add: rounds_Suc_stop)
    from round_body_events [OF this] Suc.prems(1) show ?thesis by blast
  next
    case (continue evs p')
    from round_body_completed [OF continue] Suc.prems have p': "p' = Suc r mod n"
      by (simp add: mod_Suc_eq)
    from Suc.prems(2) have "ev \<in> set evs \<or> ev \<in> set (trace (rounds e dbc dbNodes n k (Suc r) p'))"
      by (simp add: rounds_Suc_next [OF continue])
    then show ?thesis
    proof
      assume "ev \<in> set evs"
      with continue have "ev \<in> set (fst (round_body e dbc dbNodes n r p))" by simp
      from round_body_events [OF this] Suc.prems(1) show ?thesis by blast
    next
      assume "ev \<in> set (trace (rounds e dbc dbNodes n k (Suc r) p'))"
      from Suc.IH [OF p' this] obtain r' where le: "Suc r \<le> r'"
        and d: "ev = EvNewRandomContent r' \<or> ev = EvProvide r' (r' mod n)
                 \<or> (dbc \<and> ev = EvInsertProvide r' (r' mod n))
                 \<or> (\<exists>q. ev = EvRetrieve r' q) \<or> (\<exists>q. dbc \<and> ev = EvInsertRetrieval r' q)"
        by blast
      from le have "r \<le> r'" by simp
      with d show ?thesis by blast
    qed
  qed
qed

lemma round_events_append: "round_events r (xs @ ys) = round_events r xs @ round_events r ys"
  by (simp add: round_events_def)

lemma round_events_none:
  "(\<And>ev. ev \<in> set evs \<Longrightarrow> ev_round ev \<noteq> Some r) \<Longrightarrow> round_events r evs = []"
  by (simp add: round_events_def)

lemma round_events_all:
  "(\<And>ev. ev \<in> set evs \<Longrightarrow> ev_round ev = Some r) \<Longrightarrow> round_events r evs = evs"
  by (simp add: round_events_def)

lemma completed_round_tags: "ev \<in> set (completed_round dbc n r p) \<Longrightarrow> ev_round ev = Some r"
  by (auto simp: completed_round_def retrieval_events_def split: if_splits)

lemma rounds_tags:
  assumes "0 < n" and "p = r mod n" and "ev \<in> set (trace (rounds e dbc dbNodes n k r p))"
  shows "\<exists>r'\<ge>r. ev_round ev = Some r'"
  using rounds_events [OF assms] by auto

lemma rounds_round_events:
  assumes "0 < n"
  shows "p = r mod n \<Longrightarrow> r \<le> r' \<Longrightarrow> r' < completed (rounds e dbc dbNodes n k r p)
         \<Longrightarrow> round_events r' (trace (rounds e dbc dbNodes n k r p)) =
               completed_round dbc n r' (r' mod n)"
proof (induction k arbitrary: r p)
  case 0
  then show ?case by simp
next
  case (Suc k)
  show ?case
  proof (cases rule: round_body_split [where e = e and dbc = dbc and dbNodes = dbNodes and n = n and r = r and p = p])
    case (stop evs out)
    with Suc.prems show ?thesis by (simp add: rounds_Suc_stop)
  next
    case (continue evs p')
    let ?rest = "rounds e dbc dbNodes n k (Suc r) p'"
    from round_body_completed [OF continue] Suc.prems(1)
    have p': "p' = Suc r mod n" and evs: "evs = completed_round dbc n r (r mod n)"
      by (simp_all add: mod_Suc_eq)
    have tr: "trace (rounds e dbc dbNodes n (Suc k) r p) = evs @ trace ?rest"
      and co: "completed (rounds e dbc dbNodes n (Suc k) r p) = completed ?rest"
      by (simp_all add: rounds_Suc_next [OF continue])
    show ?thesis
    proof (cases "r' = r")
      case True
      have "round_events r (trace ?rest) = []"
      proof (rule round_events_none)
        fix ev assume "ev \<in> set (trace ?rest)"
        from rounds_tags [OF assms p' this] show "ev_round ev \<noteq> Some r" by auto
      qed
      moreover have "round_events r evs = evs"
        by (rule round_events_all) (simp add: evs completed_round_tags)
      ultimately show ?thesis
        by (simp add: tr round_events_append True evs)
    next
      case False
      with Suc.prems have le: "Suc r \<le> r'" by simp
      have "round_events r' evs = []"
      proof (rule round_events_none)
        fix ev assume "ev \<in> set evs"
        with evs completed_round_tags have "ev_round ev = Some r" by blast
        with False show "ev_round ev \<noteq> Some r'" by simp
      qed
      moreover from Suc.prems(3) have "r' < completed ?rest" by (simp add: co)
      note Suc.IH [OF p' le this]
      ultimately show ?thesis
        by (simp add: tr round_events_append)
    qed
  qed
qed

subsection \<open>Start-up\<close>

lemma readiness_task_events:
  "ev \<in> set (fst (readiness_task e dbc i)) \<Longrightarrow> startup_event dbc ev"
  by (auto simp: readiness_task_def split: option.splits sum.splits if_splits)

lemma readiness_task_stored:
  "fst (snd (readiness_task e dbc i)) = Returned None
   \<Longrightarrow> (snd (snd (readiness_task e dbc i)) = None) = (\<not> dbc)"
  by (auto simp: readiness_task_def split: option.splits sum.splits if_splits)

lemma readiness_barrier_events:
  "readiness_barrier e dbc n = (evs, out, dbNodes) \<Longrightarrow> ev \<in> set evs \<Longrightarrow> startup_event dbc ev"
  by (auto simp: readiness_barrier_def Let_def dest: readiness_task_events)

lemma readiness_barrier_stored:
  assumes "readiness_barrier e dbc n = (evs, Returned None, dbNodes)"
  shows "length dbNodes = n" and "i < n \<Longrightarrow> (dbNodes ! i = None) = (\<not> dbc)"
proof -
  from assms have dbn: "dbNodes = map (\<lambda>t. snd (snd t)) (map (readiness_task e dbc) [0..<n])"
    and w: "errg_Wait (map (\<lambda>t. fst (snd t)) (map (readiness_task e dbc) [0..<n])) = Returned None"
    by (simp_all add: readiness_barrier_def Let_def)
  from dbn show "length dbNodes = n" by simp
  assume i: "i < n"
  then have "fst (snd (readiness_task e dbc i))
               \<in> set (map (\<lambda>t. fst (snd t)) (map (readiness_task e dbc) [0..<n]))"
    by (auto simp: image_iff intro!: bexI [of _ i])
  from errg_Wait_nil [OF w this] have "fst (snd (readiness_task e dbc i)) = Returned None" .
  from readiness_task_stored [OF this] i dbn show "(dbNodes ! i = None) = (\<not> dbc)" by simp
qed

text \<open>
  Either start-up fails, with no round begun, or the loop runs on the \<open>dbNodes\<close> of the
  barrier after the start-up events.
\<close>

lemma ScheduleAction_cases:
  obtains (failed) evs out where
      "ScheduleAction e n fuel = \<lparr>trace = evs, result = Some out, completed = 0, provNode = 0\<rparr>"
      "\<And>ev. ev \<in> set evs \<Longrightarrow> startup_event (\<not> dry_run e) ev"
  | (started) evs dbNodes where
      "ScheduleAction e n fuel =
         (rounds e (\<not> dry_run e) dbNodes n fuel 0 0)
           \<lparr>trace := evs @ trace (rounds e (\<not> dry_run e) dbNodes n fuel 0 0)\<rparr>"
      "\<And>ev. ev \<in> set evs \<Longrightarrow> startup_event (\<not> dry_run e) ev"
      "length dbNodes = n"
      "\<And>i. i < n \<Longrightarrow> (dbNodes ! i = None) = dry_run e"
proof -
  let ?dbc = "\<not> dry_run e"
  let ?ev0 = "if ?dbc then [EvInitDBClient] else []"
  let ?ev1 = "?ev0 @ (if ?dbc then [EvInitRun] else [])"
  have ev0: "\<And>ev. ev \<in> set ?ev0 \<Longrightarrow> startup_event ?dbc ev"
    by (auto split: if_splits)
  have ev1: "\<And>ev. ev \<in> set ?ev1 \<Longrightarrow> startup_event ?dbc ev"
    by (auto split: if_splits)
  show thesis
  proof (cases "(if ?dbc then InitDBClient e else None) = None \<and> ReadBuildInfo e
                \<and> (if ?dbc then InitRun e else None) = None")
    case False
    then consider er where "(if ?dbc then InitDBClient e else None) = Some er"
      | "(if ?dbc then InitDBClient e else None) = None" "\<not> ReadBuildInfo e"
      | er where "(if ?dbc then InitDBClient e else None) = None" "ReadBuildInfo e"
          "(if ?dbc then InitRun e else None) = Some er"
      by (cases "if ?dbc then InitDBClient e else None"; cases "if ?dbc then InitRun e else None")
         auto
    then show thesis
    proof cases
      case 1
      then have "ScheduleAction e n fuel = stopped ?ev0 (wrap ''init db client'' er)"
        by (simp add: ScheduleAction_def Let_def)
      with ev0 show thesis by (intro failed [of ?ev0]) (simp_all add: stopped_def)
    next
      case 2
      then have "ScheduleAction e n fuel = stopped ?ev0 (wrap ''read build info'' ''%!w(<nil>)'')"
        by (simp add: ScheduleAction_def Let_def)
      with ev0 show thesis by (intro failed [of ?ev0]) (simp_all add: stopped_def)
    next
      case 3
      then have "ScheduleAction e n fuel = stopped ?ev1 (wrap ''init run'' er)"
        by (simp add: ScheduleAction_def Let_def)
      with ev1 show thesis by (intro failed [of ?ev1]) (simp_all add: stopped_def)
    qed
  next
    case True
    obtain bevs out dbNodes where rb: "readiness_barrier e ?dbc n = (bevs, out, dbNodes)"
      by (cases "readiness_barrier e ?dbc n")
    have evs: "\<And>ev. ev \<in> set (?ev1 @ bevs) \<Longrightarrow> startup_event ?dbc ev"
      using ev1 readiness_barrier_events [OF rb] by auto
    from True rb have sa: "ScheduleAction e n fuel =
        (case (bevs, out, dbNodes) of
           (evs, Panicked m, dbNodes) \<Rightarrow>
             \<lparr>trace = ?ev1 @ evs, result = Some (Panicked m), completed = 0, provNode = 0\<rparr>
         | (evs, Returned (Some er), dbNodes) \<Rightarrow>
             stopped (?ev1 @ evs) (wrap ''waiting for parsec node APIs'' er)
         | (evs, Returned None, dbNodes) \<Rightarrow>
             (let loop = rounds e ?dbc dbNodes n fuel 0 0
              in loop\<lparr>trace := ?ev1 @ evs @ trace loop\<rparr>))"
      by (simp add: ScheduleAction_def Let_def)
    show thesis
    proof (cases out)
      case (Panicked m)
      with sa have "ScheduleAction e n fuel =
          \<lparr>trace = ?ev1 @ bevs, result = Some (Panicked m), completed = 0, provNode = 0\<rparr>"
        by simp
      with evs show thesis by (intro failed [of "?ev1 @ bevs"]) simp_all
    next
      case (Returned x)
      show thesis
      proof (cases x)
        case (Some er)
        with sa Returned have "ScheduleAction e n fuel =
            stopped (?ev1 @ bevs) (wrap ''waiting for parsec node APIs'' er)"
          by simp
        with evs show thesis by (intro failed [of "?ev1 @ bevs"]) (simp_all add: stopped_def)
      next
        case None
        with sa Returned have "ScheduleAction e n fuel =
            (rounds e ?dbc dbNodes n fuel 0 0)
              \<lparr>trace := (?ev1 @ bevs) @ trace (rounds e ?dbc dbNodes n fuel 0 0)\<rparr>"
          by (simp add: Let_def)
        moreover from rb Returned None
        have rb': "readiness_barrier e ?dbc n = (bevs, Returned None, dbNodes)" by simp
        note readiness_barrier_stored [OF rb']
        ultimately show thesis
          using evs by (intro started [of "?ev1 @ bevs" dbNodes]) simp_all
      qed
    qed
  qed
qed

subsection \<open>The retrieval indices of a round\<close>

lemma mod_eq_close:
  fixes a b n :: nat
  assumes "a mod n = b mod n" and "a \<le> b" and "b - a < n"
  shows "a = b"
proof -
  from assms(2) assms(1) [symmetric] have "n dvd b - a" by (simp add: mod_eq_dvd_iff_nat)
  with assms(3) have "b - a = 0" by (meson dvd_imp_le not_less zero_less_iff_neq_zero)
  with assms(2) show ?thesis by simp
qed

lemma retr_index_inj:
  fixes i j p n :: nat
  assumes "i < n - 1" and "j < n - 1" and "(p + i + 1) mod n = (p + j + 1) mod n"
  shows "i = j"
proof (cases "i \<le> j")
  case True
  with assms(2) have "p + i + 1 \<le> p + j + 1" and "(p + j + 1) - (p + i + 1) < n" by simp_all
  from mod_eq_close [OF assms(3) this] show ?thesis by simp
next
  case False
  with assms(1) have "p + j + 1 \<le> p + i + 1" and "(p + i + 1) - (p + j + 1) < n" by simp_all
  from mod_eq_close [OF assms(3) [symmetric] this] show ?thesis by simp
qed

lemma retr_index_not_provider:
  fixes i p n :: nat
  assumes "p < n" and "i < n - 1"
  shows "(p + i + 1) mod n \<noteq> p"
proof
  assume "(p + i + 1) mod n = p"
  with assms(1) have eq: "p mod n = (p + i + 1) mod n" by simp
  from assms(2) have "p \<le> p + i + 1" and "(p + i + 1) - p < n" by simp_all
  from mod_eq_close [OF eq this] show False by simp
qed

lemma retr_indices:
  fixes p n :: nat
  assumes "p < n"
  shows "distinct (map (\<lambda>i. (p + i + 1) mod n) [0..<n - 1])"
    and "set (map (\<lambda>i. (p + i + 1) mod n) [0..<n - 1]) = {0..<n} - {p}"
proof -
  let ?L = "map (\<lambda>i. (p + i + 1) mod n) [0..<n - 1]"
  have "inj_on (\<lambda>i. (p + i + 1) mod n) (set [0..<n - 1])"
  proof (rule inj_onI)
    fix i j assume "i \<in> set [0..<n - 1]" "j \<in> set [0..<n - 1]"
      and "(p + i + 1) mod n = (p + j + 1) mod n"
    then show "i = j" using retr_index_inj [of i n j p] by simp
  qed
  then show d: "distinct ?L"
    by (simp add: distinct_map)
  have sub: "set ?L \<subseteq> {0..<n} - {p}"
    using assms retr_index_not_provider [OF assms] by auto
  have "card (set ?L) = length ?L"
    using d by (rule distinct_card)
  then have "card (set ?L) = n - 1"
    by simp
  moreover have "card ({0..<n} - {p}) = n - 1"
    using assms by simp
  ultimately show "set ?L = {0..<n} - {p}"
    using sub by (rule_tac card_subset_eq) simp_all
qed

subsection \<open>Observations on a completed round\<close>

lemma provides_append: "provides (xs @ ys) = provides xs @ provides ys"
  by (induction xs rule: provides.induct) simp_all

lemma retrieves_append: "retrieves (xs @ ys) = retrieves xs @ retrieves ys"
  by (induction xs rule: retrieves.induct) simp_all

lemma provide_records_append:
  "provide_records (xs @ ys) = provide_records xs @ provide_records ys"
  by (induction xs rule: provide_records.induct) simp_all

lemma retrieval_records_append:
  "retrieval_records (xs @ ys) = retrieval_records xs @ retrieval_records ys"
  by (induction xs rule: retrieval_records.induct) simp_all

lemma observe_retrieval_events:
  "provides (concat (map (\<lambda>i. retrieval_events dbc r (f i)) is)) = []"
  "retrieves (concat (map (\<lambda>i. retrieval_events dbc r (f i)) is)) = map f is"
  "provide_records (concat (map (\<lambda>i. retrieval_events dbc r (f i)) is)) = []"
  "retrieval_records (concat (map (\<lambda>i. retrieval_events dbc r (f i)) is)) =
     (if dbc then map f is else [])"
  by (induction "is") (auto simp: retrieval_events_def)

lemma observe_completed_round:
  "provides (completed_round dbc n r p) = [p]"
  "retrieves (completed_round dbc n r p) = map (\<lambda>i. (p + i + 1) mod n) [0..<n - 1]"
  "provide_records (completed_round dbc n r p) = (if dbc then [p] else [])"
  "retrieval_records (completed_round dbc n r p) =
     (if dbc then map (\<lambda>i. (p + i + 1) mod n) [0..<n - 1] else [])"
  unfolding completed_round_def
  by (simp_all add: provides_append retrieves_append provide_records_append
      retrieval_records_append observe_retrieval_events del: upt_Suc)

lemma ScheduleAction_round_events:
  assumes "0 < n" and "r < completed (ScheduleAction e n fuel)"
  shows "round_events r (trace (ScheduleAction e n fuel)) =
           completed_round (\<not> dry_run e) n r (r mod n)"
proof (cases rule: ScheduleAction_cases [where e = e and n = n and fuel = fuel])
  case (failed evs out)
  with assms show ?thesis by simp
next
  case (started evs dbNodes)
  let ?loop = "rounds e (\<not> dry_run e) dbNodes n fuel 0 0"
  from started(1) assms(2) have "r < completed ?loop" by simp
  from rounds_round_events [OF assms(1) _ _ this] have
    "round_events r (trace ?loop) = completed_round (\<not> dry_run e) n r (r mod n)" by simp
  moreover have "round_events r evs = []"
  proof (rule round_events_none)
    fix ev assume "ev \<in> set evs"
    from started(2) [OF this] show "ev_round ev \<noteq> Some r" by (cases ev) simp_all
  qed
  ultimately show ?thesis by (simp add: started(1) round_events_append)
qed

text \<open>
  C1: on a fleet of at least two nodes, every completed round \<open>r\<close> has exactly one
  Provide, on the node at the provider index, and exactly one Retrieve on every other
  node: the retrieval indices \<open>(p + i + 1) mod n\<close> for \<open>i\<close> from 0 to \<open>n - 2\<close> are
  distinct and are all the indices but \<open>p\<close>. Each call yields its record; the records are
  persisted, one for the provide and \<open>n - 1\<close> for the retrievals, unless the run is a dry run.
\<close>

theorem round_one_provide_all_others_retrieve:
  assumes "2 \<le> n" and "r < completed (ScheduleAction e n fuel)"
  shows "let evs = round_events r (trace (ScheduleAction e n fuel)); p = r mod n
         in provides evs = [p]
            \<and> retrieves evs = map (\<lambda>i. (p + i + 1) mod n) [0..<n - 1]
            \<and> distinct (retrieves evs)
            \<and> set (retrieves evs) = {0..<n} - {p}
            \<and> length (retrieves evs) = n - 1
            \<and> provide_records evs = (if dry_run e then [] else [p])
            \<and> retrieval_records evs = (if dry_run e then [] else retrieves evs)"
proof -
  from assms(1) have n: "0 < n" and p: "r mod n < n" by simp_all
  note ev = ScheduleAction_round_events [OF n assms(2)]
  show ?thesis
    unfolding Let_def ev
    using retr_indices [OF p]
    by (simp add: observe_completed_round del: upt_Suc)
qed

lemma ex_run_3_2:
  "ScheduleAction ex_sched 3 2 =
     \<lparr>trace = [EvInitDBClient, EvInitRun, EvWaitForAPI 0, EvInsertNode 0, EvWaitForAPI 1,
                EvInsertNode 1, EvWaitForAPI 2, EvInsertNode 2,
                EvNewRandomContent 0, EvProvide 0 0, EvInsertProvide 0 0,
                EvRetrieve 0 1, EvInsertRetrieval 0 1, EvRetrieve 0 2, EvInsertRetrieval 0 2,
                EvNewRandomContent 1, EvProvide 1 1, EvInsertProvide 1 1,
                EvRetrieve 1 2, EvInsertRetrieval 1 2, EvRetrieve 1 0, EvInsertRetrieval 1 0],
      result = None, completed = 2, provNode = 2\<rparr>"
  by code_simp

theorem round_one_provide_all_others_retrieve_witness:
  "(2::nat) \<le> 3 \<and> 1 < completed (ScheduleAction ex_sched 3 2)
   \<and> provides (round_events 1 (trace (ScheduleAction ex_sched 3 2))) = [1]
   \<and> retrieves (round_events 1 (trace (ScheduleAction ex_sched 3 2))) = [2, 0]
   \<and> provide_records (round_events 1 (trace (ScheduleAction ex_sched 3 2))) = [1]
   \<and> retrieval_records (round_events 1 (trace (ScheduleAction ex_sched 3 2))) = [2, 0]"
  using round_one_provide_all_others_retrieve [of 3 1 ex_sched 2]
  by (simp add: ex_run_3_2 round_events_def)

subsection \<open>The provider index\<close>

lemma ScheduleAction_provNode:
  assumes "0 < n"
  shows "provNode (ScheduleAction e n fuel) = completed (ScheduleAction e n fuel) mod n"
proof (cases rule: ScheduleAction_cases [where e = e and n = n and fuel = fuel])
  case (failed evs out)
  then show ?thesis by simp
next
  case (started evs dbNodes)
  with rounds_provNode [OF assms, of 0 0 e "\<not> dry_run e" dbNodes fuel] show ?thesis by simp
qed

lemma ScheduleAction_provides:
  assumes "0 < n" and "EvProvide r p \<in> set (trace (ScheduleAction e n fuel))"
  shows "p = r mod n"
proof (cases rule: ScheduleAction_cases [where e = e and n = n and fuel = fuel])
  case (failed evs out)
  from failed(1) assms(2) have "EvProvide r p \<in> set evs" by simp
  from failed(2) [OF this] show ?thesis by simp
next
  case (started evs dbNodes)
  let ?loop = "rounds e (\<not> dry_run e) dbNodes n fuel 0 0"
  from started(1) assms(2) have "EvProvide r p \<in> set evs \<or> EvProvide r p \<in> set (trace ?loop)"
    by simp
  then show ?thesis
  proof
    assume "EvProvide r p \<in> set evs"
    from started(2) [OF this] show ?thesis by simp
  next
    assume "EvProvide r p \<in> set (trace ?loop)"
    from rounds_events [OF assms(1) _ this] show ?thesis by auto
  qed
qed

text \<open>
  C2: on a fleet of at least one node, the provider index after \<open>N\<close> completed rounds is
  \<open>N mod n\<close> and stays below \<open>n\<close>; every Provide of round \<open>r\<close> is on node \<open>r mod n\<close>, every
  completed round has exactly that one; and a round that completes hands over
  \<open>(p + 1) mod n\<close>. The index stays below \<open>len(nodes)\<close>, so incrementing it never
  overflows the Go \<open>int\<close>.
\<close>

theorem provider_index_round_robin:
  assumes "1 \<le> n"
  shows "provNode (ScheduleAction e n fuel) = completed (ScheduleAction e n fuel) mod n
         \<and> provNode (ScheduleAction e n fuel) < n
         \<and> (\<forall>r p. EvProvide r p \<in> set (trace (ScheduleAction e n fuel)) \<longrightarrow> p = r mod n)
         \<and> (\<forall>r. r < completed (ScheduleAction e n fuel) \<longrightarrow>
               provides (round_events r (trace (ScheduleAction e n fuel))) = [r mod n])
         \<and> (\<forall>dbc dbNodes r p evs p'.
               round_body e dbc dbNodes n r p = (evs, Inr p') \<longrightarrow> p < n \<and> p' = (p + 1) mod n)"
proof -
  from assms have n: "0 < n" by simp
  have "provNode (ScheduleAction e n fuel) = completed (ScheduleAction e n fuel) mod n"
    by (rule ScheduleAction_provNode [OF n])
  moreover from this n have "provNode (ScheduleAction e n fuel) < n" by simp
  moreover have "\<forall>r p. EvProvide r p \<in> set (trace (ScheduleAction e n fuel)) \<longrightarrow> p = r mod n"
    using ScheduleAction_provides [OF n] by blast
  moreover have "\<forall>r. r < completed (ScheduleAction e n fuel) \<longrightarrow>
                   provides (round_events r (trace (ScheduleAction e n fuel))) = [r mod n]"
    by (simp add: ScheduleAction_round_events [OF n] observe_completed_round)
  moreover have "\<forall>dbc dbNodes r p evs p'.
                   round_body e dbc dbNodes n r p = (evs, Inr p') \<longrightarrow> p < n \<and> p' = (p + 1) mod n"
    using round_body_completed by blast
  ultimately show ?thesis by blast
qed

lemma ex_round_1:
  "round_body ex_sched True ex_dbNodes 3 1 1 =
     ([EvNewRandomContent 1, EvProvide 1 1, EvInsertProvide 1 1, EvRetrieve 1 2,
       EvInsertRetrieval 1 2, EvRetrieve 1 0, EvInsertRetrieval 1 0], Inr 2)"
  by code_simp

theorem provider_index_round_robin_witness:
  "(1::nat) \<le> 3 \<and> completed (ScheduleAction ex_sched 3 2) = 2
   \<and> provNode (ScheduleAction ex_sched 3 2) = 2 mod 3
   \<and> EvProvide 1 1 \<in> set (trace (ScheduleAction ex_sched 3 2)) \<and> (1::nat) = 1 mod 3
   \<and> provides (round_events 0 (trace (ScheduleAction ex_sched 3 2))) = [0 mod 3]
   \<and> provides (round_events 1 (trace (ScheduleAction ex_sched 3 2))) = [1 mod 3]
   \<and> snd (round_body ex_sched True ex_dbNodes 3 1 1) = Inr ((1 + 1) mod 3)"
proof -
  have "snd (round_body ex_sched True ex_dbNodes 3 1 1) = Inr ((1 + 1) mod 3)"
    unfolding ex_round_1 by simp
  with provider_index_round_robin [of 3 ex_sched 2] show ?thesis
    by (simp add: ex_run_3_2 round_events_def)
qed

subsection \<open>A round's provide comes before its retrievals\<close>

lemma round_body_precedes:
  assumes "fst (round_body e dbc dbNodes n r p) = xs @ EvRetrieve r' q # ys"
  shows "r' = r \<and> EvProvide r p \<in> set xs"
proof -
  from assms have mem: "EvRetrieve r' q \<in> set (fst (round_body e dbc dbNodes n r p))" by simp
  from round_body_events [OF mem] have r: "r' = r" by auto
  from round_body_retrieve_prefix [OF mem] obtain rest
    where "fst (round_body e dbc dbNodes n r p) = EvNewRandomContent r # EvProvide r p # rest"
    by blast
  with assms have "xs @ EvRetrieve r' q # ys = EvNewRandomContent r # EvProvide r p # rest"
    by simp
  then have "EvProvide r p \<in> set xs"
    by (cases xs; cases "tl xs") auto
  with r show ?thesis by simp
qed

lemma precedes_append:
  assumes A: "\<And>xs ys. A = xs @ EvRetrieve r q # ys \<Longrightarrow> \<exists>p. EvProvide r p \<in> set xs"
    and B: "\<And>xs ys. B = xs @ EvRetrieve r q # ys \<Longrightarrow> \<exists>p. EvProvide r p \<in> set xs"
    and eq: "A @ B = xs @ EvRetrieve r q # ys"
  shows "\<exists>p. EvProvide r p \<in> set xs"
proof -
  from eq consider (left) zs where "A = xs @ EvRetrieve r q # zs"
    | (right) zs where "xs = A @ zs" "B = zs @ EvRetrieve r q # ys"
    by (auto simp: append_eq_append_conv2 append_eq_Cons_conv)
  then show ?thesis
  proof cases
    case (left zs)
    from A [OF this] show ?thesis .
  next
    case (right zs)
    from B [OF right(2)] right(1) show ?thesis by auto
  qed
qed

lemma rounds_precedes:
  "trace (rounds e dbc dbNodes n k r0 p0) = xs @ EvRetrieve r q # ys
   \<Longrightarrow> \<exists>p. EvProvide r p \<in> set xs"
proof (induction k arbitrary: r0 p0 xs ys)
  case 0
  then show ?case by simp
next
  case (Suc k)
  show ?case
  proof (cases rule: round_body_split [where e = e and dbc = dbc and dbNodes = dbNodes and n = n and r = r0 and p = p0])
    case (stop evs out)
    with Suc.prems have "fst (round_body e dbc dbNodes n r0 p0) = xs @ EvRetrieve r q # ys"
      by (simp add: rounds_Suc_stop)
    from round_body_precedes [OF this] show ?thesis by blast
  next
    case (continue evs p')
    let ?rest = "rounds e dbc dbNodes n k (Suc r0) p'"
    from Suc.prems have eq: "evs @ trace ?rest = xs @ EvRetrieve r q # ys"
      by (simp add: rounds_Suc_next [OF continue])
    show ?thesis
    proof (rule precedes_append [OF _ _ eq])
      fix xs' ys' assume "evs = xs' @ EvRetrieve r q # ys'"
      with continue have "fst (round_body e dbc dbNodes n r0 p0) = xs' @ EvRetrieve r q # ys'"
        by simp
      from round_body_precedes [OF this] show "\<exists>p. EvProvide r p \<in> set xs'" by blast
    next
      fix xs' ys' assume "trace ?rest = xs' @ EvRetrieve r q # ys'"
      from Suc.IH [OF this] show "\<exists>p. EvProvide r p \<in> set xs'" .
    qed
  qed
qed

lemma round_body_provide_in_range:
  assumes "EvProvide r' p' \<in> set (fst (round_body e dbc dbNodes n r p))"
  shows "0 < n"
proof (cases rule: round_body_cases [where e = e and r = r and p = p and n = n])
  case (ctx_done er)
  with assms show ?thesis by (simp add: round_body_ctx_done)
next
  case (no_content er)
  with assms show ?thesis by (simp add: round_body_no_content)
next
  case (out_of_range content)
  with assms show ?thesis by (simp add: round_body_out_of_range)
next
  case (provide_failed content er)
  then show ?thesis by simp
next
  case (provided content)
  then show ?thesis by simp
qed

lemma rounds_provide_in_range:
  "EvProvide r' p' \<in> set (trace (rounds e dbc dbNodes n k r p)) \<Longrightarrow> 0 < n"
proof (induction k arbitrary: r p)
  case 0
  then show ?case by simp
next
  case (Suc k)
  show ?case
  proof (cases rule: round_body_split [where e = e and dbc = dbc and dbNodes = dbNodes and n = n and r = r and p = p])
    case (stop evs out)
    with Suc.prems have "EvProvide r' p' \<in> set (fst (round_body e dbc dbNodes n r p))"
      by (simp add: rounds_Suc_stop)
    then show ?thesis by (rule round_body_provide_in_range)
  next
    case (continue evs p'')
    from round_body_completed [OF continue] show ?thesis by simp
  qed
qed

text \<open>
  C6: in the trace of any execution, a Retrieve of round \<open>r\<close> comes after the Provide of
  round \<open>r\<close> has returned. The goroutines of a round are started after \<open>Provide\<close> returns,
  so this holds however their calls interleave; the model lays them out in index order.
\<close>

theorem provide_before_retrieve:
  assumes "trace (ScheduleAction e n fuel) = xs @ EvRetrieve r q # ys"
  shows "EvProvide r (r mod n) \<in> set xs"
proof (cases rule: ScheduleAction_cases [where e = e and n = n and fuel = fuel])
  case (failed evs out)
  from failed(1) assms have "EvRetrieve r q \<in> set evs" by simp
  from failed(2) [OF this] show ?thesis by simp
next
  case (started evs dbNodes)
  let ?loop = "rounds e (\<not> dry_run e) dbNodes n fuel 0 0"
  from started(1) assms have eq: "evs @ trace ?loop = xs @ EvRetrieve r q # ys" by simp
  have "\<exists>p. EvProvide r p \<in> set xs"
  proof (rule precedes_append [OF _ _ eq])
    fix xs' ys' assume "evs = xs' @ EvRetrieve r q # ys'"
    then have "EvRetrieve r q \<in> set evs" by simp
    from started(2) [OF this] show "\<exists>p. EvProvide r p \<in> set xs'" by simp
  next
    fix xs' ys' assume "trace ?loop = xs' @ EvRetrieve r q # ys'"
    then show "\<exists>p. EvProvide r p \<in> set xs'" by (rule rounds_precedes)
  qed
  then obtain p where p: "EvProvide r p \<in> set xs" ..
  with assms have mem: "EvProvide r p \<in> set (trace (ScheduleAction e n fuel))" by simp
  with started(1) have "EvProvide r p \<in> set evs \<or> EvProvide r p \<in> set (trace ?loop)" by simp
  then have "0 < n"
  proof
    assume "EvProvide r p \<in> set evs"
    from started(2) [OF this] show ?thesis by simp
  next
    assume "EvProvide r p \<in> set (trace ?loop)"
    then show ?thesis by (rule rounds_provide_in_range)
  qed
  from ScheduleAction_provides [OF this mem] p show ?thesis by simp
qed

theorem provide_before_retrieve_witness:
  "trace (ScheduleAction ex_sched 3 2) =
     [EvInitDBClient, EvInitRun, EvWaitForAPI 0, EvInsertNode 0, EvWaitForAPI 1,
      EvInsertNode 1, EvWaitForAPI 2, EvInsertNode 2,
      EvNewRandomContent 0, EvProvide 0 0, EvInsertProvide 0 0,
      EvRetrieve 0 1, EvInsertRetrieval 0 1, EvRetrieve 0 2, EvInsertRetrieval 0 2,
      EvNewRandomContent 1, EvProvide 1 1, EvInsertProvide 1 1]
     @ EvRetrieve 1 2 # [EvInsertRetrieval 1 2, EvRetrieve 1 0, EvInsertRetrieval 1 0]
   \<and> EvProvide 1 (1 mod 3)
       \<in> set [EvInitDBClient, EvInitRun, EvWaitForAPI 0, EvInsertNode 0, EvWaitForAPI 1,
              EvInsertNode 1, EvWaitForAPI 2, EvInsertNode 2,
              EvNewRandomContent 0, EvProvide 0 0, EvInsertProvide 0 0,
              EvRetrieve 0 1, EvInsertRetrieval 0 1, EvRetrieve 0 2, EvInsertRetrieval 0 2,
              EvNewRandomContent 1, EvProvide 1 1, EvInsertProvide 1 1]"
  using provide_before_retrieve [of ex_sched 3 2
      "[EvInitDBClient, EvInitRun, EvWaitForAPI 0, EvInsertNode 0, EvWaitForAPI 1,
        EvInsertNode 1, EvWaitForAPI 2, EvInsertNode 2,
        EvNewRandomContent 0, EvProvide 0 0, EvInsertProvide 0 0,
        EvRetrieve 0 1, EvInsertRetrieval 0 1, EvRetrieve 0 2, EvInsertRetrieval 0 2,
        EvNewRandomContent 1, EvProvide 1 1, EvInsertProvide 1 1]"
      1 2 "[EvInsertRetrieval 1 2, EvRetrieve 1 0, EvInsertRetrieval 1 0]"]
  by (simp add: ex_run_3_2)

subsection \<open>A failed provide\<close>

lemma round_body_completed_provided:
  assumes "round_body e dbc dbNodes n r p = (evs, Inr p')" and "NewRandomContent e r = Inr content"
  shows "Provide e r p content = None"
proof (cases rule: round_body_cases [where e = e and r = r and p = p and n = n])
  case (ctx_done er)
  with assms show ?thesis by (simp add: round_body_ctx_done)
next
  case (no_content er)
  with assms show ?thesis by (simp add: round_body_no_content)
next
  case (out_of_range content)
  with assms show ?thesis by (simp add: round_body_out_of_range)
next
  case (provide_failed content er)
  with assms show ?thesis by (simp add: round_body_provide_failed)
next
  case (provided content')
  with assms(2) show ?thesis by simp
qed

lemma round_body_failed_provide:
  assumes "EvProvide r' p' \<in> set (fst (round_body e dbc dbNodes n r p))"
    and "NewRandomContent e r' = Inr content" and "Provide e r' p' content = Some er"
  shows "round_body e dbc dbNodes n r p =
           ([EvNewRandomContent r, EvProvide r p],
            Inl (case dbNodes ! p of
                   None \<Rightarrow> Panicked nil_deref
                 | Some nd \<Rightarrow> Returned (Some (wrap ''provide content'' er))))
         \<and> r' = r \<and> p' = p"
proof -
  from round_body_events [OF assms(1)] have eq: "r' = r" "p' = p" by auto
  show ?thesis
  proof (cases rule: round_body_cases [where e = e and r = r and p = p and n = n])
    case (ctx_done er)
    with assms(1) show ?thesis by (simp add: round_body_ctx_done)
  next
    case (no_content er)
    with assms(1) show ?thesis by (simp add: round_body_no_content)
  next
    case (out_of_range content)
    with assms(1) show ?thesis by (simp add: round_body_out_of_range)
  next
    case (provide_failed content' er')
    with assms(2,3) eq have "content' = content" "er' = er" by simp_all
    with provide_failed eq show ?thesis by (simp add: round_body_provide_failed)
  next
    case (provided content')
    with assms(2,3) eq show ?thesis by simp
  qed
qed

lemma rounds_failed_provide:
  assumes "0 < n" and "NewRandomContent e r = Inr content" and "Provide e r p content = Some er"
  shows "p0 = r0 mod n \<Longrightarrow> EvProvide r p \<in> set (trace (rounds e dbc dbNodes n k r0 p0))
         \<Longrightarrow> result (rounds e dbc dbNodes n k r0 p0) =
               Some (case dbNodes ! p of
                       None \<Rightarrow> Panicked nil_deref
                     | Some nd \<Rightarrow> Returned (Some (wrap ''provide content'' er)))
             \<and> completed (rounds e dbc dbNodes n k r0 p0) = r
             \<and> round_events r (trace (rounds e dbc dbNodes n k r0 p0)) =
                 [EvNewRandomContent r, EvProvide r p]"
proof (induction k arbitrary: r0 p0)
  case 0
  then show ?case by simp
next
  case (Suc k)
  show ?case
  proof (cases rule: round_body_split [where e = e and dbc = dbc and dbNodes = dbNodes and n = n and r = r0 and p = p0])
    case (stop evs out)
    with Suc.prems(2) have "EvProvide r p \<in> set (fst (round_body e dbc dbNodes n r0 p0))"
      by (simp add: rounds_Suc_stop)
    from round_body_failed_provide [OF this assms(2,3)] stop
    show ?thesis by (simp add: rounds_Suc_stop round_events_def)
  next
    case (continue evs p')
    let ?rest = "rounds e dbc dbNodes n k (Suc r0) p'"
    from round_body_completed [OF continue] Suc.prems(1)
    have p': "p' = Suc r0 mod n" and evs: "evs = completed_round dbc n r0 (r0 mod n)"
      by (simp_all add: mod_Suc_eq)
    have notin: "EvProvide r p \<notin> set evs"
    proof
      assume "EvProvide r p \<in> set evs"
      with continue have mem: "EvProvide r p \<in> set (fst (round_body e dbc dbNodes n r0 p0))"
        by simp
      from round_body_failed_provide [OF mem assms(2,3)] continue show False by simp
    qed
    with Suc.prems(2) have mem: "EvProvide r p \<in> set (trace ?rest)"
      by (simp add: rounds_Suc_next [OF continue])
    from rounds_tags [OF assms(1) p' mem] have "Suc r0 \<le> r" by simp
    then have "round_events r evs = []"
      by (intro round_events_none) (auto simp: evs dest: completed_round_tags)
    with Suc.IH [OF p' mem] show ?thesis
      by (simp add: rounds_Suc_next [OF continue] round_events_append)
  qed
qed

text \<open>
  When the provide of a round fails, the execution ends in that round after the events
  of content generation and of the provide: with an error when the results are
  persisted, with a panic in a dry run, where \<open>dbNodes\<close> holds nil entries.
\<close>

lemma provide_failure_ends_run:
  assumes "EvProvide r p \<in> set (trace (ScheduleAction e n fuel))"
    and "NewRandomContent e r = Inr content" and "Provide e r p content = Some er"
  shows "result (ScheduleAction e n fuel) =
           Some (if dry_run e then Panicked nil_deref
                 else Returned (Some (wrap ''provide content'' er)))
         \<and> completed (ScheduleAction e n fuel) = r
         \<and> round_events r (trace (ScheduleAction e n fuel)) =
             [EvNewRandomContent r, EvProvide r p]"
proof (cases rule: ScheduleAction_cases [where e = e and n = n and fuel = fuel])
  case (failed evs out)
  from failed(1) assms(1) have "EvProvide r p \<in> set evs" by simp
  from failed(2) [OF this] show ?thesis by simp
next
  case (started evs dbNodes)
  let ?loop = "rounds e (\<not> dry_run e) dbNodes n fuel 0 0"
  have noev: "EvProvide r p \<notin> set evs"
    using started(2) [of "EvProvide r p"] by auto
  with started(1) assms(1) have mem: "EvProvide r p \<in> set (trace ?loop)" by simp
  then have n: "0 < n" by (rule rounds_provide_in_range)
  from rounds_events [OF n _ mem] have "p = r mod n" by auto
  with n have "p < n" by simp
  from started(4) [OF this] have db: "(dbNodes ! p = None) = dry_run e" .
  have "round_events r evs = []"
  proof (rule round_events_none)
    fix ev assume "ev \<in> set evs"
    from started(2) [OF this] show "ev_round ev \<noteq> Some r" by (cases ev) simp_all
  qed
  with rounds_failed_provide [OF n assms(2,3) _ mem] db show ?thesis
    by (auto simp: started(1) round_events_append split: option.splits)
qed

text \<open>
  C5: the provide of round 1 fails in a dry run on three nodes. The execution ends at
  once, in round 1, with no Retrieve and no persisted retrieval of that round; but it ends
  in a panic, not in a returned error: the warning of line 328 reads \<open>dbNodes[provNode].ID\<close>
  and a dry run leaves \<open>dbNodes\<close> nil. The same failure outside a dry run returns the error.
\<close>

theorem provide_failure_dry_run_panics:
  "result (ScheduleAction ex_provide_fails_dry 3 4) = Some (Panicked nil_deref)
   \<and> completed (ScheduleAction ex_provide_fails_dry 3 4) = 1
   \<and> round_events 1 (trace (ScheduleAction ex_provide_fails_dry 3 4)) =
       [EvNewRandomContent 1, EvProvide 1 1]
   \<and> result (ScheduleAction ex_provide_fails 3 4) =
       Some (Returned (Some ''provide content: connection refused''))"
proof -
  have dry: "ScheduleAction ex_provide_fails_dry 3 4 =
      \<lparr>trace = [EvWaitForAPI 0, EvWaitForAPI 1, EvWaitForAPI 2, EvNewRandomContent 0,
                 EvProvide 0 0, EvRetrieve 0 1, EvRetrieve 0 2, EvNewRandomContent 1,
                 EvProvide 1 1],
        result = Some (Panicked nil_deref), completed = 1, provNode = 1\<rparr>"
    by code_simp
  have "result (ScheduleAction ex_provide_fails 3 4) =
          Some (Returned (Some ''provide content: connection refused''))"
    by code_simp
  with dry show ?thesis by (simp add: round_events_def)
qed

subsection \<open>Dry run\<close>

text \<open>No persistence call is made in a dry run.\<close>

lemma rounds_persistence:
  "ev \<in> set (trace (rounds e dbc dbNodes n k r p)) \<Longrightarrow> persistence ev \<Longrightarrow> dbc"
proof (induction k arbitrary: r p)
  case 0
  then show ?case by simp
next
  case (Suc k)
  show ?case
  proof (cases rule: round_body_split [where e = e and dbc = dbc and dbNodes = dbNodes and n = n and r = r and p = p])
    case (stop evs out)
    with Suc.prems(1) have "ev \<in> set (fst (round_body e dbc dbNodes n r p))"
      by (simp add: rounds_Suc_stop)
    from round_body_events [OF this] Suc.prems(2) show ?thesis by auto
  next
    case (continue evs p')
    from Suc.prems(1) have "ev \<in> set evs \<or> ev \<in> set (trace (rounds e dbc dbNodes n k (Suc r) p'))"
      by (simp add: rounds_Suc_next [OF continue])
    then show ?thesis
    proof
      assume "ev \<in> set evs"
      with continue have "ev \<in> set (fst (round_body e dbc dbNodes n r p))" by simp
      from round_body_events [OF this] Suc.prems(2) show ?thesis by auto
    next
      assume "ev \<in> set (trace (rounds e dbc dbNodes n k (Suc r) p'))"
      from Suc.IH [OF this Suc.prems(2)] show ?thesis .
    qed
  qed
qed

lemma dry_run_no_persistence:
  assumes "dry_run e" and "ev \<in> set (trace (ScheduleAction e n fuel))"
  shows "\<not> persistence ev"
proof (cases rule: ScheduleAction_cases [where e = e and n = n and fuel = fuel])
  case (failed evs out)
  from failed(1) assms(2) have "ev \<in> set evs" by simp
  from failed(2) [OF this] assms(1) show ?thesis by (cases ev) simp_all
next
  case (started evs dbNodes)
  let ?loop = "rounds e (\<not> dry_run e) dbNodes n fuel 0 0"
  from started(1) assms(2) have "ev \<in> set evs \<or> ev \<in> set (trace ?loop)" by simp
  then show ?thesis
  proof
    assume "ev \<in> set evs"
    from started(2) [OF this] assms(1) show ?thesis by (cases ev) simp_all
  next
    assume "ev \<in> set (trace ?loop)"
    from rounds_persistence [OF this] assms(1) show ?thesis by auto
  qed
qed

text \<open>
  The flag is read once, for the database handle; nothing after start-up reads it.
\<close>

lemma retrieval_task_flag:
  "retrieval_task (e\<lparr>dry_run := b\<rparr>) dbc dbNodes r content q =
     retrieval_task e dbc dbNodes r content q"
  by (simp add: retrieval_task_def cong: option.case_cong if_cong)

lemma insert_provide_step_flag:
  "insert_provide_step (e\<lparr>dry_run := b\<rparr>) dbc dbNodes r p = insert_provide_step e dbc dbNodes r p"
  by (simp add: insert_provide_step_def cong: option.case_cong if_cong)

lemma retrieval_phase_flag:
  "retrieval_phase (e\<lparr>dry_run := b\<rparr>) dbc dbNodes n r content p =
     retrieval_phase e dbc dbNodes n r content p"
  by (simp add: retrieval_phase_def retrieval_tasks_def retrieval_task_flag)

lemma after_provide_flag:
  "after_provide (e\<lparr>dry_run := b\<rparr>) dbc dbNodes n r content p =
     after_provide e dbc dbNodes n r content p"
  by (simp add: after_provide_def retrieval_phase_flag insert_provide_step_flag
      cong: prod.case_cong outcome.case_cong option.case_cong)

lemma round_body_flag:
  "round_body (e\<lparr>dry_run := b\<rparr>) dbc dbNodes n r p = round_body e dbc dbNodes n r p"
  by (simp add: round_body_def after_provide_flag
      cong: option.case_cong sum.case_cong if_cong)

lemma rounds_flag:
  "rounds (e\<lparr>dry_run := b\<rparr>) dbc dbNodes n k r p = rounds e dbc dbNodes n k r p"
  by (induction k arbitrary: r p) (simp_all add: rounds_Suc round_body_flag)

lemma readiness_task_flag: "readiness_task (e\<lparr>dry_run := b\<rparr>) dbc = readiness_task e dbc"
  by (rule ext) (simp add: readiness_task_def cong: option.case_cong sum.case_cong if_cong)

lemma readiness_barrier_flag:
  "readiness_barrier (e\<lparr>dry_run := b\<rparr>) dbc n = readiness_barrier e dbc n"
  by (simp add: readiness_barrier_def readiness_task_flag)

text \<open>
  A round with and without the database handle, when the inserts succeed: \<open>dbNodes\<close> has
  an entry for every node with the handle and \<open>dbNodes'\<close> none without.
\<close>

lemma measured_append: "measured (xs @ ys) = measured xs @ measured ys"
  by (simp add: measured_def)

lemma measured_concat: "measured (concat xss) = concat (map measured xss)"
  by (induction xss) (simp_all add: measured_def)

lemma retrieval_task_dry:
  assumes "InsertRetrieval e r q = None" and "dbNodes ! q \<noteq> None"
  shows "retrieval_task e False dbNodes' r content q =
           (measured (fst (retrieval_task e True dbNodes r content q)),
            snd (retrieval_task e True dbNodes r content q))"
  using assms by (auto simp: retrieval_task_def measured_def Let_def split: option.splits)

lemma retrieval_phase_dry:
  assumes ok: "\<And>q. InsertRetrieval e r q = None"
    and db: "\<And>i. i < n \<Longrightarrow> dbNodes ! i \<noteq> None" and n: "0 < n"
  shows "retrieval_phase e False dbNodes' n r content p =
           (measured (fst (retrieval_phase e True dbNodes n r content p)),
            snd (retrieval_phase e True dbNodes n r content p))"
proof -
  let ?tasks = "retrieval_tasks e True dbNodes n r content p"
  let ?tasks' = "retrieval_tasks e False dbNodes' n r content p"
  have "retrieval_task e False dbNodes' r content ((p + i + 1) mod n) =
          (measured (fst (retrieval_task e True dbNodes r content ((p + i + 1) mod n))),
           snd (retrieval_task e True dbNodes r content ((p + i + 1) mod n)))" for i
    using n by (intro retrieval_task_dry ok db) simp
  then have t: "?tasks' = map (\<lambda>t. (measured (fst t), snd t)) ?tasks"
    by (simp add: retrieval_tasks_def)
  have s: "map snd ?tasks' = map snd ?tasks"
    unfolding t by (simp add: comp_def)
  have f: "concat (map fst ?tasks') = measured (concat (map fst ?tasks))"
    unfolding t by (simp add: comp_def measured_concat)
  show ?thesis
    unfolding retrieval_phase_def Let_def s f
    by (simp split: outcome.splits option.splits)
qed

lemma after_provide_dry:
  assumes okp: "InsertProvide e r p = None" and ok: "\<And>q. InsertRetrieval e r q = None"
    and db: "\<And>i. i < n \<Longrightarrow> dbNodes ! i \<noteq> None" and p: "p < n"
  shows "after_provide e False dbNodes' n r content p =
           (measured (fst (after_provide e True dbNodes n r content p)),
            snd (after_provide e True dbNodes n r content p))"
proof -
  from p have n: "0 < n" by simp
  from db [OF p] obtain nd where "dbNodes ! p = Some nd" by auto
  with okp have ips: "insert_provide_step e True dbNodes r p = ([EvInsertProvide r p], Returned None)"
    by (simp add: insert_provide_step_def)
  have ips': "insert_provide_step e False dbNodes' r p = ([], Returned None)"
    by (simp add: insert_provide_step_def)
  obtain revs nxt where rp: "retrieval_phase e True dbNodes n r content p = (revs, nxt)"
    by (cases "retrieval_phase e True dbNodes n r content p")
  with retrieval_phase_dry [OF ok db n, of dbNodes' content p]
  have rp': "retrieval_phase e False dbNodes' n r content p = (measured revs, nxt)" by simp
  show ?thesis
    by (simp add: after_provide_def ips ips' rp rp' measured_def)
qed

lemma round_body_dry:
  assumes okp: "\<And>p. InsertProvide e r p = None" and ok: "\<And>q. InsertRetrieval e r q = None"
    and db: "\<And>i. i < n \<Longrightarrow> dbNodes ! i \<noteq> None"
    and db': "\<And>i. i < n \<Longrightarrow> dbNodes' ! i = None"
  shows "round_body e False dbNodes' n r p =
           (measured (fst (round_body e True dbNodes n r p)),
            snd (round_body e True dbNodes n r p))
         \<or> (\<exists>er. snd (round_body e True dbNodes n r p) =
                    Inl (Returned (Some (wrap ''provide content'' er)))
                \<and> round_body e False dbNodes' n r p =
                    (measured (fst (round_body e True dbNodes n r p)), Inl (Panicked nil_deref)))"
proof (cases rule: round_body_cases [where e = e and r = r and p = p and n = n])
  case (ctx_done er)
  then show ?thesis by (simp add: round_body_ctx_done measured_def)
next
  case (no_content er)
  then show ?thesis by (simp add: round_body_no_content measured_def)
next
  case (out_of_range content)
  then show ?thesis by (simp add: round_body_out_of_range measured_def)
next
  case (provide_failed content er)
  from db [OF provide_failed(3)] obtain nd where "dbNodes ! p = Some nd" by auto
  with provide_failed db' [OF provide_failed(3)] show ?thesis
    by (auto simp: round_body_provide_failed measured_def)
next
  case (provided content)
  show ?thesis
    by (simp add: round_body_provided [OF provided]
          after_provide_dry [OF okp ok db provided(3)] measured_def split: prod.splits)
qed


lemma rounds_dry:
  assumes okp: "\<And>r p. InsertProvide e r p = None" and ok: "\<And>r q. InsertRetrieval e r q = None"
    and db: "\<And>i. i < n \<Longrightarrow> dbNodes ! i \<noteq> None"
    and db': "\<And>i. i < n \<Longrightarrow> dbNodes' ! i = None"
  shows "trace (rounds e False dbNodes' n k r p) = measured (trace (rounds e True dbNodes n k r p))
         \<and> completed (rounds e False dbNodes' n k r p) = completed (rounds e True dbNodes n k r p)
         \<and> provNode (rounds e False dbNodes' n k r p) = provNode (rounds e True dbNodes n k r p)
         \<and> (result (rounds e False dbNodes' n k r p) = result (rounds e True dbNodes n k r p)
            \<or> result (rounds e False dbNodes' n k r p) = Some (Panicked nil_deref)
              \<and> (\<exists>er. result (rounds e True dbNodes n k r p) =
                         Some (Returned (Some (wrap ''provide content'' er)))))"
proof (induction k arbitrary: r p)
  case 0
  then show ?case by (simp add: measured_def)
next
  case (Suc k)
  obtain evs x where rb: "round_body e True dbNodes n r p = (evs, x)"
    by (cases "round_body e True dbNodes n r p")
  from round_body_dry [where e = e and r = r and p = p and n = n and dbNodes = dbNodes
      and dbNodes' = dbNodes', OF okp ok db db']
  consider (same) "round_body e False dbNodes' n r p =
                     (measured (fst (round_body e True dbNodes n r p)),
                      snd (round_body e True dbNodes n r p))"
    | (panic) er where
        "snd (round_body e True dbNodes n r p) =
           Inl (Returned (Some (wrap ''provide content'' er)))"
        "round_body e False dbNodes' n r p =
           (measured (fst (round_body e True dbNodes n r p)), Inl (Panicked nil_deref))"
    by blast
  then show ?case
  proof cases
    case same
    with rb have rb': "round_body e False dbNodes' n r p = (measured evs, x)" by simp
    show ?thesis
    proof (cases x)
      case (Inl out)
      with rb rb' show ?thesis by (simp add: rounds_Suc_stop)
    next
      case (Inr p')
      with rb rb' Suc.IH [of "Suc r" p'] show ?thesis
        by (simp add: rounds_Suc_next measured_append)
    qed
  next
    case (panic er)
    with rb have "round_body e False dbNodes' n r p = (measured evs, Inl (Panicked nil_deref))"
      and "round_body e True dbNodes n r p =
             (evs, Inl (Returned (Some (wrap ''provide content'' er))))"
      by simp_all
    then show ?thesis by (auto simp: rounds_Suc_stop)
  qed
qed

lemma readiness_task_dry:
  assumes "InsertNode e i = Inr nd"
  shows "fst (readiness_task e False i) = measured (fst (readiness_task e True i))"
    and "fst (snd (readiness_task e False i)) = fst (snd (readiness_task e True i))"
  using assms by (simp_all add: readiness_task_def measured_def split: option.splits)

lemma readiness_barrier_dry:
  assumes "\<And>i. \<exists>nd. InsertNode e i = Inr nd"
  shows "fst (readiness_barrier e False n) = measured (fst (readiness_barrier e True n))"
    and "fst (snd (readiness_barrier e False n)) = fst (snd (readiness_barrier e True n))"
proof -
  have f: "fst (readiness_task e False i) = measured (fst (readiness_task e True i))"
    and o: "fst (snd (readiness_task e False i)) = fst (snd (readiness_task e True i))" for i
    using assms [of i] readiness_task_dry [of e i] by auto
  show "fst (readiness_barrier e False n) = measured (fst (readiness_barrier e True n))"
    by (simp add: readiness_barrier_def Let_def measured_concat comp_def f)
  show "fst (snd (readiness_barrier e False n)) = fst (snd (readiness_barrier e True n))"
    by (simp add: readiness_barrier_def Let_def comp_def o)
qed


lemma ScheduleAction_with_db:
  assumes "\<not> dry_run e" and "InitDBClient e = None" and "InitRun e = None" and "ReadBuildInfo e"
    and "readiness_barrier e True n = (bevs, out, dbNodes)"
  shows "ScheduleAction e n fuel =
           (case out of
              Panicked m \<Rightarrow>
                \<lparr>trace = [EvInitDBClient, EvInitRun] @ bevs, result = Some (Panicked m),
                   completed = 0, provNode = 0\<rparr>
            | Returned (Some er) \<Rightarrow>
                stopped ([EvInitDBClient, EvInitRun] @ bevs) (wrap ''waiting for parsec node APIs'' er)
            | Returned None \<Rightarrow>
                (rounds e True dbNodes n fuel 0 0)
                  \<lparr>trace := [EvInitDBClient, EvInitRun] @ bevs @ trace (rounds e True dbNodes n fuel 0 0)\<rparr>)"
  using assms by (simp add: ScheduleAction_def Let_def split: outcome.splits option.splits)

lemma ScheduleAction_without_db:
  assumes "dry_run e" and "ReadBuildInfo e"
    and "readiness_barrier e False n = (bevs, out, dbNodes)"
  shows "ScheduleAction e n fuel =
           (case out of
              Panicked m \<Rightarrow>
                \<lparr>trace = bevs, result = Some (Panicked m), completed = 0, provNode = 0\<rparr>
            | Returned (Some er) \<Rightarrow> stopped bevs (wrap ''waiting for parsec node APIs'' er)
            | Returned None \<Rightarrow>
                (rounds e False dbNodes n fuel 0 0)
                  \<lparr>trace := bevs @ trace (rounds e False dbNodes n fuel 0 0)\<rparr>)"
  using assms by (simp add: ScheduleAction_def Let_def split: outcome.splits option.splits)

text \<open>
  A dry run against an execution that persists its results, all of whose persistence
  calls succeed: the same calls but the persistence calls, the same rounds and provider
  index, and the same result, but for one case: where the persisting execution returns
  the error of a failed provide, the dry run panics.
\<close>

lemma dry_run_same_measurements:
  assumes nd: "\<not> dry_run e" and idb: "InitDBClient e = None" and irun: "InitRun e = None"
    and inode: "\<And>i. \<exists>nd. InsertNode e i = Inr nd"
    and okp: "\<And>r p. InsertProvide e r p = None" and ok: "\<And>r q. InsertRetrieval e r q = None"
  shows "trace (ScheduleAction (e\<lparr>dry_run := True\<rparr>) n fuel) = measured (trace (ScheduleAction e n fuel))
         \<and> completed (ScheduleAction (e\<lparr>dry_run := True\<rparr>) n fuel) = completed (ScheduleAction e n fuel)
         \<and> provNode (ScheduleAction (e\<lparr>dry_run := True\<rparr>) n fuel) = provNode (ScheduleAction e n fuel)
         \<and> (result (ScheduleAction (e\<lparr>dry_run := True\<rparr>) n fuel) = result (ScheduleAction e n fuel)
            \<or> result (ScheduleAction (e\<lparr>dry_run := True\<rparr>) n fuel) = Some (Panicked nil_deref)
              \<and> (\<exists>er. result (ScheduleAction e n fuel) =
                         Some (Returned (Some (wrap ''provide content'' er)))))"
proof (cases "ReadBuildInfo e")
  case False
  with nd idb show ?thesis
    by (simp add: ScheduleAction_def Let_def stopped_def measured_def)
next
  case True
  let ?ed = "e\<lparr>dry_run := True\<rparr>"
  obtain bevs out dbNodes where rb: "readiness_barrier e True n = (bevs, out, dbNodes)"
    by (cases "readiness_barrier e True n")
  obtain bevs' out' dbNodes' where rb0: "readiness_barrier e False n = (bevs', out', dbNodes')"
    by (cases "readiness_barrier e False n")
  from readiness_barrier_dry [OF inode, of n] rb rb0
  have "bevs' = measured bevs" and "out' = out" by simp_all
  with rb0 have rb': "readiness_barrier ?ed False n = (measured bevs, out, dbNodes')"
    by (simp add: readiness_barrier_flag)
  note a = ScheduleAction_with_db [OF nd idb irun True rb, of fuel]
  have "dry_run ?ed" and "ReadBuildInfo ?ed" using True by simp_all
  note b = ScheduleAction_without_db [OF this rb', of fuel]
  show ?thesis
  proof (cases out)
    case (Panicked m)
    then show ?thesis unfolding a b by (simp add: measured_def)
  next
    case (Returned x)
    show ?thesis
    proof (cases x)
      case (Some er)
      with Returned show ?thesis unfolding a b by (simp add: stopped_def measured_def)
    next
      case None
      from rb Returned None
      have db: "\<And>i. i < n \<Longrightarrow> dbNodes ! i \<noteq> None"
        using readiness_barrier_stored(2) [of e True n bevs dbNodes] by simp
      from rb0 \<open>out' = out\<close> Returned None
      have db': "\<And>i. i < n \<Longrightarrow> dbNodes' ! i = None"
        using readiness_barrier_stored(2) [of e False n bevs' dbNodes'] by simp
      note sim = rounds_dry [where e = e and n = n and dbNodes = dbNodes and dbNodes' = dbNodes'
          and k = fuel and r = 0 and p = 0, OF okp ok db db']
      have m: "measured ([EvInitDBClient, EvInitRun] @ bevs @ evs) = measured bevs @ measured evs"
        for evs by (simp add: measured_def)
      from Returned None sim show ?thesis
        unfolding a b by (simp add: rounds_flag m del: append.simps)
    qed
  qed
qed


text \<open>
  C7: a dry run makes no persistence call, and on three nodes whose provide fails in
  round 1 it makes the calls of the persisting execution but the persistence calls. Yet
  its error propagation is not that of the persisting execution: that one returns the error
  of the failed provide, the dry run panics on the nil \<open>dbNodes\<close> entry read by the warning
  of line 328.
\<close>

theorem dry_run_changes_failed_provide:
  "ex_provide_fails_dry = ex_provide_fails\<lparr>dry_run := True\<rparr>
   \<and> filter persistence (trace (ScheduleAction ex_provide_fails_dry 3 4)) = []
   \<and> trace (ScheduleAction ex_provide_fails_dry 3 4) =
       measured (trace (ScheduleAction ex_provide_fails 3 4))
   \<and> result (ScheduleAction ex_provide_fails 3 4) =
       Some (Returned (Some ''provide content: connection refused''))
   \<and> result (ScheduleAction ex_provide_fails_dry 3 4) = Some (Panicked nil_deref)"
proof -
  have dry: "ScheduleAction ex_provide_fails_dry 3 4 =
      \<lparr>trace = [EvWaitForAPI 0, EvWaitForAPI 1, EvWaitForAPI 2, EvNewRandomContent 0,
                 EvProvide 0 0, EvRetrieve 0 1, EvRetrieve 0 2, EvNewRandomContent 1,
                 EvProvide 1 1],
        result = Some (Panicked nil_deref), completed = 1, provNode = 1\<rparr>"
    by code_simp
  have db: "ScheduleAction ex_provide_fails 3 4 =
      \<lparr>trace = [EvInitDBClient, EvInitRun, EvWaitForAPI 0, EvInsertNode 0, EvWaitForAPI 1,
                 EvInsertNode 1, EvWaitForAPI 2, EvInsertNode 2, EvNewRandomContent 0,
                 EvProvide 0 0, EvInsertProvide 0 0, EvRetrieve 0 1, EvInsertRetrieval 0 1,
                 EvRetrieve 0 2, EvInsertRetrieval 0 2, EvNewRandomContent 1, EvProvide 1 1],
        result = Some (Returned (Some ''provide content: connection refused'')),
        completed = 1, provNode = 1\<rparr>"
    by code_simp
  show ?thesis
    unfolding dry db by (simp add: measured_def ex_provide_fails_dry_def)
qed

end
